theory Spec2Isabelle
  imports Main "HOL-Library.Char_ord" "HOL-Library.List_Lexorder" "HOL-Library.Product_Lexorder"
begin

section \<open>Strings, decimal numerals and the three tag patterns\<close>

text \<open>
  A Python \<open>str\<close> is modelled as a \<open>string\<close>, one \<open>char\<close> per code point (so the model
  covers the code points below 256; among them the regular expression class \<open>\d\<close> and
  \<open>int()\<close> accept exactly the ten ASCII digits). Strings are compared as Python compares
  them: lexicographically by code point.
\<close>

definition newline :: char where
  "newline = CHR 0x0A"

definition is_digit :: "char \<Rightarrow> bool" where
  "is_digit c = (c \<in> set ''0123456789'')"

definition digit_val :: "char \<Rightarrow> nat" where
  "digit_val c = of_char c - 48"

text \<open>\<open>int(s)\<close> for a string \<open>s\<close> matched by \<open>\d+\<close>.\<close>

definition int_of_digits :: "string \<Rightarrow> nat" where
  "int_of_digits ds = foldl (\<lambda>a c. 10 * a + digit_val c) 0 ds"

definition digit_char :: "nat \<Rightarrow> char" where
  "digit_char n = char_of (48 + n)"

text \<open>The decimal rendering of an integer inside an f-string, \<open>f"{i}"\<close>.\<close>

fun str_nat :: "nat \<Rightarrow> string" where
  "str_nat n = (if n < 10 then [digit_char n] else str_nat (n div 10) @ [digit_char (n mod 10)])"

declare str_nat.simps [simp del]

definition str_int :: "int \<Rightarrow> string" where
  "str_int i = (if i < 0 then CHR ''-'' # str_nat (nat (- i)) else str_nat (nat i))"

text \<open>\<open>f"{base}[{i}]"\<close> and \<open>f"{base}[{idx}].{bit}"\<close>.\<close>

definition tag_fmt :: "string \<Rightarrow> int \<Rightarrow> string" where
  "tag_fmt base i = base @ ''['' @ str_int i @ '']''"

definition bit_fmt :: "string \<Rightarrow> int \<Rightarrow> int \<Rightarrow> string" where
  "bit_fmt base idx b = base @ ''['' @ str_int idx @ ''].'' @ str_int b"

text \<open>
  The pieces of the regular expressions. \<open>bracket_index\<close> matches \<open>\[(\d+)\]\<close> at the head
  of a string and returns the digits and the rest; the greedy \<open>\d+\<close> never has to give a
  digit back, because what follows it is not a digit. \<open>at_end\<close> is \<open>$\<close>: the end of the
  string, or the position before a newline that ends the string.
\<close>

definition at_end :: "string \<Rightarrow> bool" where
  "at_end s = (s = [] \<or> s = [newline])"

fun bracket_index :: "string \<Rightarrow> (string \<times> string) option" where
  "bracket_index [] = None"
| "bracket_index (c # cs) =
     (if c = CHR ''[''
      then (case dropWhile is_digit cs of
              [] \<Rightarrow> None
            | d # rest \<Rightarrow>
                if takeWhile is_digit cs \<noteq> [] \<and> d = CHR '']''
                then Some (takeWhile is_digit cs, rest) else None)
      else None)"

fun dot_digits :: "string \<Rightarrow> (string \<times> string) option" where
  "dot_digits [] = None"
| "dot_digits (c # cs) =
     (if c = CHR ''.'' \<and> takeWhile is_digit cs \<noteq> []
      then Some (takeWhile is_digit cs, dropWhile is_digit cs) else None)"

text \<open>\<open>\[(\d+)\]$\<close> at the head of a string.\<close>

definition index_suffix :: "string \<Rightarrow> string option" where
  "index_suffix s =
     (case bracket_index s of
        Some (ds, rest) \<Rightarrow> if at_end rest then Some ds else None
      | None \<Rightarrow> None)"

text \<open>
  \<open>re.match(r'^(.+?)\[(\d+)\]$', tag)\<close>: the lazy group takes one character more (never a
  newline) each time the rest is not an index suffix. \<open>pre\<close> is what group 1 holds so far.
\<close>

fun split_search :: "string \<Rightarrow> string \<Rightarrow> (string \<times> string) option" where
  "split_search pre [] = None"
| "split_search pre (c # cs) =
     (case (if pre = [] then None else index_suffix (c # cs)) of
        Some ds \<Rightarrow> Some (pre, ds)
      | None \<Rightarrow> if c = newline then None else split_search (pre @ [c]) cs)"

definition split_index :: "string \<Rightarrow> string \<times> nat" where
  "split_index tag =
     (case split_search [] tag of
        Some (base, ds) \<Rightarrow> (base, int_of_digits ds)
      | None \<Rightarrow> (tag, 0))"

text \<open>
  \<open>re.sub(r'\[\d+\]$', '', tag)\<close>: the leftmost index suffix is cut out; a newline that
  ends the string stays.
\<close>

fun strip_index :: "string \<Rightarrow> string" where
  "strip_index [] = []"
| "strip_index (c # cs) =
     (case bracket_index (c # cs) of
        Some (ds, rest) \<Rightarrow> if at_end rest then rest else c # strip_index cs
      | None \<Rightarrow> c # strip_index cs)"

text \<open>
  The sort pattern \<open>^(.*?)(?:\[(\d+)\])?(?:\.(\d+))?$\<close>. \<open>bit_tail\<close> is
  \<open>(?:\.(\d+))?$\<close> and \<open>tag_tail\<close> is \<open>(?:\[(\d+)\])?(?:\.(\d+))?$\<close>: an optional
  group is tried first with its content and then without.
\<close>

definition bit_tail :: "string \<Rightarrow> string option option" where
  "bit_tail s =
     (case dot_digits s of
        Some (bs, rest) \<Rightarrow>
          if at_end rest then Some (Some bs)
          else if at_end s then Some None else None
      | None \<Rightarrow> if at_end s then Some None else None)"

definition tag_tail :: "string \<Rightarrow> (string option \<times> string option) option" where
  "tag_tail s =
     (case bracket_index s of
        Some (ds, rest) \<Rightarrow>
          (case bit_tail rest of
             Some b \<Rightarrow> Some (Some ds, b)
           | None \<Rightarrow> map_option (Pair None) (bit_tail s))
      | None \<Rightarrow> map_option (Pair None) (bit_tail s))"

fun tag_search :: "string \<Rightarrow> string \<Rightarrow> (string \<times> string option \<times> string option) option" where
  "tag_search pre [] = map_option (Pair pre) (tag_tail [])"
| "tag_search pre (c # cs) =
     (case tag_tail (c # cs) of
        Some groups \<Rightarrow> Some (pre, groups)
      | None \<Rightarrow> if c = newline then None else tag_search (pre @ [c]) cs)"

definition group_int :: "string option \<Rightarrow> int" where
  "group_int g = (case g of Some ds \<Rightarrow> int (int_of_digits ds) | None \<Rightarrow> - 1)"

definition tag_sort_key :: "string \<Rightarrow> string \<times> int \<times> int" where
  "tag_sort_key tag =
     (case tag_search [] tag of
        Some (base, i, b) \<Rightarrow> (base, group_int i, group_int b)
      | None \<Rightarrow> (tag, - 1, - 1))"

text \<open>
  \<open>str.strip()\<close> drops the characters for which \<open>str.isspace\<close> holds; the class \<open>\s\<close> of
  the regular expressions is the same set.
\<close>

definition py_isspace :: "char \<Rightarrow> bool" where
  "py_isspace c = ((of_char c :: nat) \<in> {9, 10, 11, 12, 13, 28, 29, 30, 31, 32, 133, 160})"

definition py_strip :: "string \<Rightarrow> string" where
  "py_strip s = rev (dropWhile py_isspace (rev (dropWhile py_isspace s)))"

text \<open>
  \<open>int(s)\<close> for an arbitrary attribute value. The white space that \<open>int\<close> drops around the
  numeral is smaller than that of \<open>str.strip\<close>: the separators 0x1C to 0x1F are not in it
  (\<open>int\<close> of a digit followed by 0x1F raises). One sign is allowed, single underscores may
  separate digits, and the numeral has at most 4300 digits, the default limit of the
  interpreter. \<open>None\<close> is the \<open>ValueError\<close>. The numerals that \<open>int_of_digits\<close> reads in
  operands are taken to be within that limit.
\<close>

definition int_space :: "char \<Rightarrow> bool" where
  "int_space c = ((of_char c :: nat) \<in> {9, 10, 11, 12, 13, 32, 133, 160})"

definition int_strip :: "string \<Rightarrow> string" where
  "int_strip s = rev (dropWhile int_space (rev (dropWhile int_space s)))"

fun int_literal :: "string \<Rightarrow> bool" where
  "int_literal [] = False"
| "int_literal [c] = is_digit c"
| "int_literal (c # d # cs) =
     (if is_digit c then int_literal (d # cs)
      else c = CHR ''_'' \<and> is_digit d \<and> int_literal (d # cs))"

definition py_nat :: "string \<Rightarrow> nat option" where
  "py_nat s =
     (case s of
        [] \<Rightarrow> None
      | c # cs \<Rightarrow>
          if is_digit c \<and> int_literal s \<and> length (filter is_digit s) \<le> 4300
          then Some (int_of_digits (filter is_digit s))
          else None)"

definition py_int :: "string \<Rightarrow> int option" where
  "py_int s =
     (case int_strip s of
        [] \<Rightarrow> None
      | c # cs \<Rightarrow>
          if c = CHR ''-'' then map_option (\<lambda>n. - int n) (py_nat cs)
          else if c = CHR ''+'' then map_option int (py_nat cs)
          else map_option int (py_nat (c # cs)))"

section \<open>The data model\<close>

text \<open>
  The closed set of values of the column \<open>Instruction\<close>: \<open>"COP"\<close>, \<open>"CPS"\<close>, \<open>"MOV"\<close>,
  \<open>"FFL"\<close>, \<open>"MESSAGE"\<close>, \<open>"OTE"\<close> and \<open>"Not Found"\<close>.
\<close>

datatype instruction = COP | CPS | MOV | FFL | MESSAGE | OTE | Not_Found

text \<open>
  One row of the output, the dictionary appended to \<open>records\<close>. \<open>Program\<close>, \<open>Routine\<close> and
  \<open>Rung\<close> hold what \<open>get("Name")\<close> and \<open>get("Number")\<close> return, which is \<open>None\<close> for a
  missing attribute.
\<close>

record mapping_record =
  Col45 :: string
  Description :: string
  DataType :: string
  Program :: "string option"
  Routine :: "string option"
  Rung :: "string option"
  Instruction :: instruction
  Source :: string

text \<open>
  The parsed document, as the library calls hand it to \<open>extract_mappings\<close>. A \<open>Tag\<close>
  element:
  \<^item> \<open>tag_name\<close> is \<open>t.get("Name")\<close>;
  \<^item> \<open>tag_dtype\<close> is \<open>(t.get("DataType") or "").upper()\<close>;
  \<^item> \<open>tag_desc\<close> is \<open>None\<close> without a \<open>Description\<close> child, else the stripped text
    \<open>(desc_el.get("Text") or desc_el.text or "").strip()\<close>;
  \<^item> \<open>tag_comments\<close> has, for each \<open>Comment\<close> of the \<open>Comments\<close> child, the stripped
    operand and the stripped text;
  \<^item> \<open>tag_len\<close> is \<open>None\<close> without a \<open>DataValueMember\<close> named \<open>LEN\<close>, else what
    \<open>len_el.get("Value")\<close> returns.
\<close>

record tag_decl =
  tag_name :: "string option"
  tag_dtype :: string
  tag_desc :: "string option"
  tag_comments :: "(string \<times> string) list"
  tag_len :: "string option option"

text \<open>
  A \<open>MessageParameters\<close> element: its four attributes as \<open>mp.get\<close> returns them, \<open>None\<close>
  for a missing one (the default \<open>"0"\<close> of the local index is applied where it is read).
\<close>

record message_params =
  local_elem :: "string option"
  req_len :: "string option"
  local_index_attr :: "string option"
  remote_elem :: "string option"

text \<open>
  A match of \<open>cop_re\<close>: the instruction name in upper case is one of two, the source, the
  destination, and \<open>int(length_s)\<close> of the group \<open>(\d+)\<close>.
\<close>

datatype copy_name = Cop | Cps

fun copy_instruction :: "copy_name \<Rightarrow> instruction" where
  "copy_instruction Cop = COP"
| "copy_instruction Cps = CPS"

text \<open>
  A \<open>Rung\<close> element (one that has the four ancestors up to its program, as every rung
  of an export has): the names found along its parent chain, its number, the matches that
  \<open>findall\<close> returns on its text for each of the four patterns (in the order of the text),
  for each descendant with an \<open>Operand\<close> attribute the stripped operand and the
  stripped text of its \<open>Comment\<close> child (\<open>None\<close> without one), and its
  \<open>MessageParameters\<close> descendants.
\<close>

record rung =
  prog_name :: "string option"
  rout_name :: "string option"
  rung_num :: "string option"
  ote_matches :: "string list"
  operand_elems :: "(string \<times> string option) list"
  cop_matches :: "(copy_name \<times> string \<times> string \<times> nat) list"
  mov_matches :: "(string \<times> string) list"
  ffl_matches :: "(string \<times> string \<times> string) list"
  message_elems :: "message_params list"

text \<open>
  The input of a run whose two files exist and whose sheet has the column \<open>Col45\<close> (the
  checks before the parse raise otherwise). \<open>col45\<close> lists the cells of the column after
  \<open>dropna().astype(str)\<close>, each once, in the order in which Python visits the set
  \<open>dest_tags_set\<close> built from them; that order depends on the hash seed of the
  interpreter, and every order is an input (a list with repetitions is read as its
  \<open>remdups\<close>). \<open>tags\<close> and \<open>rungs\<close> are the \<open>Tag\<close> and \<open>Rung\<close> elements in document order.
\<close>

record input =
  col45 :: "string list"
  tags :: "tag_decl list"
  rungs :: "rung list"

type_synonym occurrence = "string option \<times> string option \<times> string option"

text \<open>The four tables of step 3.\<close>

record tables =
  dtype_map :: "string \<rightharpoonup> string"
  base_desc_map :: "string \<rightharpoonup> string"
  bit_comment_map :: "string \<rightharpoonup> string"
  control_len_map :: "string \<rightharpoonup> int"

text \<open>
  What the passes over the rungs and over the monitored tags change: the rows, the tags
  that are resolved, the occurrences of every coil operand, and the bit comments.
\<close>

record scan_state =
  records :: "mapping_record list"
  found_original_tags :: "string set"
  ote_map :: "string \<rightharpoonup> occurrence list"
  bit_comments :: "string \<rightharpoonup> string"

datatype error = ValueError | OverflowError

section \<open>Step 3: the tables of the tag declarations\<close>

definition add_comment :: "string \<Rightarrow> tables \<Rightarrow> string \<times> string \<Rightarrow> tables" where
  "add_comment base_name tb c =
     (case c of (operand, txt) \<Rightarrow>
        if operand = [] then tb
        else if txt = [] then tb
        else tb\<lparr>bit_comment_map :=
               (bit_comment_map tb)
                 ((if take 1 operand = ''['' then base_name @ operand else operand) \<mapsto> txt)\<rparr>)"

definition set_control_len :: "string \<Rightarrow> tag_decl \<Rightarrow> tables \<Rightarrow> tables" where
  "set_control_len base_name t tb =
     (case tag_len t of
        None \<Rightarrow> tb
      | Some None \<Rightarrow> tb
      | Some (Some v) \<Rightarrow>
          (case py_int v of
             None \<Rightarrow> tb
           | Some n \<Rightarrow> tb\<lparr>control_len_map := (control_len_map tb)(base_name \<mapsto> n)\<rparr>))"

definition index_tag :: "tables \<Rightarrow> tag_decl \<Rightarrow> tables" where
  "index_tag tb t =
     (case tag_name t of
        None \<Rightarrow> tb
      | Some base_name \<Rightarrow>
          if base_name = [] then tb
          else
            let dt = tag_dtype t;
                tb1 = (if dt \<noteq> [] then tb\<lparr>dtype_map := (dtype_map tb)(base_name \<mapsto> dt)\<rparr>
                       else tb);
                tb2 = (case tag_desc t of
                         None \<Rightarrow> tb1
                       | Some base_desc \<Rightarrow>
                           if base_desc \<noteq> []
                           then tb1\<lparr>base_desc_map := (base_desc_map tb1)(base_name \<mapsto> base_desc)\<rparr>
                           else tb1);
                tb3 = foldl (add_comment base_name) tb2 (tag_comments t)
            in if dt = ''CONTROL'' then set_control_len base_name t tb3 else tb3)"

definition empty_tables :: tables where
  "empty_tables =
     \<lparr>dtype_map = Map.empty, base_desc_map = Map.empty,
      bit_comment_map = Map.empty, control_len_map = Map.empty\<rparr>"

definition build_tables :: "tag_decl list \<Rightarrow> tables" where
  "build_tables ts = foldl index_tag empty_tables ts"

text \<open>\<open>d.get(key, "")\<close>.\<close>

definition get_or_empty :: "(string \<rightharpoonup> string) \<Rightarrow> string \<Rightarrow> string" where
  "get_or_empty m k = (case m k of Some v \<Rightarrow> v | None \<Rightarrow> [])"

section \<open>Step 5: the pass over the rungs\<close>

definition occurrence_of :: "rung \<Rightarrow> occurrence" where
  "occurrence_of r = (prog_name r, rout_name r, rung_num r)"

text \<open>\<open>ote_map.setdefault(operand, []).append(...)\<close> for a stripped, non-empty operand.\<close>

definition track_coil :: "occurrence \<Rightarrow> scan_state \<Rightarrow> string \<Rightarrow> scan_state" where
  "track_coil occ st m =
     (let operand = py_strip m
      in if operand \<noteq> []
         then st\<lparr>ote_map :=
                  (ote_map st)
                    (operand \<mapsto> (case ote_map st operand of None \<Rightarrow> [] | Some l \<Rightarrow> l) @ [occ])\<rparr>
         else st)"

text \<open>A comment of the rung is kept only for an operand that has none yet.\<close>

definition note_comment :: "scan_state \<Rightarrow> string \<times> string option \<Rightarrow> scan_state" where
  "note_comment st e =
     (case e of (operand, com) \<Rightarrow>
        if operand = [] then st
        else (case com of
                None \<Rightarrow> st
              | Some ctext \<Rightarrow>
                  if ctext \<noteq> [] \<and> bit_comments st operand = None
                  then st\<lparr>bit_comments := (bit_comments st)(operand \<mapsto> ctext)\<rparr>
                  else st))"

text \<open>\<open>records.append(rec)\<close> followed by \<open>found_original_tags.add(rec["Col45"])\<close>.\<close>

definition add_record :: "scan_state \<Rightarrow> mapping_record \<Rightarrow> scan_state" where
  "add_record st rec =
     st\<lparr>records := records st @ [rec],
        found_original_tags := insert (Col45 rec) (found_original_tags st)\<rparr>"

text \<open>COP and CPS: the \<open>k\<close>-th destination and the \<open>k\<close>-th row of a match.\<close>

definition cop_dst :: "copy_name \<times> string \<times> string \<times> nat \<Rightarrow> nat \<Rightarrow> string" where
  "cop_dst m k =
     (case m of (instr, src_full, dst_full, len) \<Rightarrow>
        (case split_index dst_full of (dst_base, dst_i0) \<Rightarrow> tag_fmt dst_base (int (dst_i0 + k))))"

definition cop_record ::
    "tables \<Rightarrow> rung \<Rightarrow> copy_name \<times> string \<times> string \<times> nat \<Rightarrow> nat \<Rightarrow> mapping_record" where
  "cop_record tb r m k =
     (case m of (instr, src_full, dst_full, len) \<Rightarrow>
        (case split_index src_full of (src_base, src_i0) \<Rightarrow>
        (case split_index dst_full of (dst_base, dst_i0) \<Rightarrow>
           \<lparr>Col45 = tag_fmt dst_base (int (dst_i0 + k)),
            Description = get_or_empty (base_desc_map tb) dst_base,
            DataType = get_or_empty (dtype_map tb) dst_base,
            Program = prog_name r, Routine = rout_name r, Rung = rung_num r,
            Instruction = copy_instruction instr,
            Source = tag_fmt src_base (int (src_i0 + k))\<rparr>)))"

definition cop_len :: "copy_name \<times> string \<times> string \<times> nat \<Rightarrow> nat" where
  "cop_len m = (case m of (instr, src_full, dst_full, len) \<Rightarrow> len)"

definition scan_cop ::
    "string set \<Rightarrow> tables \<Rightarrow> rung \<Rightarrow> scan_state \<Rightarrow> copy_name \<times> string \<times> string \<times> nat
      \<Rightarrow> scan_state" where
  "scan_cop S tb r st m =
     foldl (\<lambda>s k. if cop_dst m k \<in> S then add_record s (cop_record tb r m k) else s)
       st [0..<cop_len m]"

text \<open>MOV: no length, the destination is looked up as it is written.\<close>

definition mov_record :: "tables \<Rightarrow> rung \<Rightarrow> string \<times> string \<Rightarrow> mapping_record" where
  "mov_record tb r m =
     (case m of (src_full, dst_full) \<Rightarrow>
        (case split_index dst_full of (dst_base, dst_i0) \<Rightarrow>
           \<lparr>Col45 = dst_full,
            Description = get_or_empty (base_desc_map tb) dst_base,
            DataType = get_or_empty (dtype_map tb) dst_base,
            Program = prog_name r, Routine = rout_name r, Rung = rung_num r,
            Instruction = MOV,
            Source = src_full\<rparr>))"

definition scan_mov ::
    "string set \<Rightarrow> tables \<Rightarrow> rung \<Rightarrow> scan_state \<Rightarrow> string \<times> string \<Rightarrow> scan_state" where
  "scan_mov S tb r st m = (if snd m \<in> S then add_record st (mov_record tb r m) else st)"

text \<open>
  FFL: the length is the \<open>LEN\<close> of the control tag; \<open>if not ffl_len: continue\<close> leaves the
  match without rows when the table has no entry or the entry is 0, and \<open>range\<close> of a
  negative length is empty. The source is written to every row as it stands.
\<close>

definition ffl_dst :: "string \<times> string \<times> string \<Rightarrow> nat \<Rightarrow> string" where
  "ffl_dst m k =
     (case m of (src_full, dst_full, ctl_full) \<Rightarrow>
        (case split_index dst_full of (dst_base, dst_i0) \<Rightarrow> tag_fmt dst_base (int (dst_i0 + k))))"

definition ffl_record ::
    "tables \<Rightarrow> rung \<Rightarrow> string \<times> string \<times> string \<Rightarrow> nat \<Rightarrow> mapping_record" where
  "ffl_record tb r m k =
     (case m of (src_full, dst_full, ctl_full) \<Rightarrow>
        (case split_index dst_full of (dst_base, dst_i0) \<Rightarrow>
           \<lparr>Col45 = tag_fmt dst_base (int (dst_i0 + k)),
            Description = get_or_empty (base_desc_map tb) dst_base,
            DataType = get_or_empty (dtype_map tb) dst_base,
            Program = prog_name r, Routine = rout_name r, Rung = rung_num r,
            Instruction = FFL,
            Source = src_full\<rparr>))"

definition ffl_length :: "tables \<Rightarrow> string \<times> string \<times> string \<Rightarrow> int option" where
  "ffl_length tb m =
     (case m of (src_full, dst_full, ctl_full) \<Rightarrow> control_len_map tb (strip_index ctl_full))"

definition scan_ffl ::
    "string set \<Rightarrow> tables \<Rightarrow> rung \<Rightarrow> scan_state \<Rightarrow> string \<times> string \<times> string \<Rightarrow> scan_state" where
  "scan_ffl S tb r st m =
     (case ffl_length tb m of
        None \<Rightarrow> st
      | Some ffl_len \<Rightarrow>
          if ffl_len = 0 then st
          else foldl (\<lambda>s k. if ffl_dst m k \<in> S then add_record s (ffl_record tb r m k) else s)
                 st [0..<nat ffl_len])"

text \<open>
  MessageParameters: a request without local element or requested length is skipped;
  \<open>int(req_len)\<close> and \<open>int(local_index_s)\<close> raise \<open>ValueError\<close> on anything else than an
  integer, and nothing catches it.
\<close>

definition split_or :: "string \<Rightarrow> int \<Rightarrow> string \<times> int" where
  "split_or elem local_index =
     (case split_search [] elem of
        Some (base, ds) \<Rightarrow> (base, int (int_of_digits ds))
      | None \<Rightarrow> (elem, local_index))"

definition msg_dst :: "string \<Rightarrow> int \<Rightarrow> nat \<Rightarrow> string" where
  "msg_dst le local_index k =
     (case split_or le local_index of (dst_base, dst_i0) \<Rightarrow> tag_fmt dst_base (dst_i0 + int k))"

definition msg_record ::
    "tables \<Rightarrow> rung \<Rightarrow> string \<Rightarrow> string \<Rightarrow> int \<Rightarrow> nat \<Rightarrow> mapping_record" where
  "msg_record tb r le re local_index k =
     (case split_or le local_index of (dst_base, dst_i0) \<Rightarrow>
     (case split_or re local_index of (src_base, src_i0) \<Rightarrow>
        \<lparr>Col45 = tag_fmt dst_base (dst_i0 + int k),
         Description = get_or_empty (base_desc_map tb) dst_base,
         DataType = get_or_empty (dtype_map tb) dst_base,
         Program = prog_name r, Routine = rout_name r, Rung = rung_num r,
         Instruction = MESSAGE,
         Source = tag_fmt src_base (src_i0 + int k)\<rparr>))"

definition scan_message ::
    "string set \<Rightarrow> tables \<Rightarrow> rung \<Rightarrow> scan_state \<Rightarrow> message_params \<Rightarrow> error + scan_state" where
  "scan_message S tb r st mp =
     (case local_elem mp of
        None \<Rightarrow> Inr st
      | Some le \<Rightarrow>
          if le = [] then Inr st
          else (case req_len mp of
                  None \<Rightarrow> Inr st
                | Some rl \<Rightarrow>
                    if rl = [] then Inr st
                    else (case py_int rl of
                            None \<Rightarrow> Inl ValueError
                          | Some len \<Rightarrow>
                              (case py_int (case local_index_attr mp of None \<Rightarrow> ''0'' | Some s \<Rightarrow> s) of
                                 None \<Rightarrow> Inl ValueError
                               | Some local_index \<Rightarrow>
                                   let re = (case remote_elem mp of None \<Rightarrow> [] | Some s \<Rightarrow> s)
                                   in Inr (foldl
                                        (\<lambda>s k. if msg_dst le local_index k \<in> S
                                                then add_record s (msg_record tb r le re local_index k)
                                                else s)
                                        st [0..<nat len])))))"

fun scan_messages ::
    "string set \<Rightarrow> tables \<Rightarrow> rung \<Rightarrow> scan_state \<Rightarrow> message_params list \<Rightarrow> error + scan_state" where
  "scan_messages S tb r st [] = Inr st"
| "scan_messages S tb r st (mp # mps) =
     (case scan_message S tb r st mp of
        Inl e \<Rightarrow> Inl e
      | Inr st' \<Rightarrow> scan_messages S tb r st' mps)"

text \<open>The body of the loop over the rungs, in the order of the source.\<close>

definition scan_rung :: "string set \<Rightarrow> tables \<Rightarrow> scan_state \<Rightarrow> rung \<Rightarrow> error + scan_state" where
  "scan_rung S tb st r =
     (let st1 = foldl (track_coil (occurrence_of r)) st (ote_matches r);
          st2 = foldl note_comment st1 (operand_elems r);
          st3 = foldl (scan_cop S tb r) st2 (cop_matches r);
          st4 = foldl (scan_mov S tb r) st3 (mov_matches r);
          st5 = foldl (scan_ffl S tb r) st4 (ffl_matches r)
      in scan_messages S tb r st5 (message_elems r))"

fun scan_rungs :: "string set \<Rightarrow> tables \<Rightarrow> scan_state \<Rightarrow> rung list \<Rightarrow> error + scan_state" where
  "scan_rungs S tb st [] = Inr st"
| "scan_rungs S tb st (r # rs) =
     (case scan_rung S tb st r of
        Inl e \<Rightarrow> Inl e
      | Inr st' \<Rightarrow> scan_rungs S tb st' rs)"

section \<open>Step 6: the sweep over the bits of the unresolved tags\<close>

definition bit_record ::
    "scan_state \<Rightarrow> string \<Rightarrow> string \<Rightarrow> string \<Rightarrow> occurrence \<Rightarrow> mapping_record" where
  "bit_record st operand dt base_desc occ =
     \<lparr>Col45 = operand,
      Description = (case bit_comments st operand of Some c \<Rightarrow> c | None \<Rightarrow> base_desc),
      DataType = dt,
      Program = fst occ, Routine = fst (snd occ), Rung = snd (snd occ),
      Instruction = OTE,
      Source = []\<rparr>"

text \<open>
  One bit: \<open>if not ctx: continue\<close> skips an operand without entry (or with an empty one);
  otherwise the row takes \<open>ctx[0]\<close>. The second component is the flag \<open>emitted\<close>.
\<close>

definition sweep_bit ::
    "string \<Rightarrow> nat \<Rightarrow> string \<Rightarrow> string \<Rightarrow> scan_state \<times> bool \<Rightarrow> nat \<Rightarrow> scan_state \<times> bool" where
  "sweep_bit base idx dt base_desc se b =
     (case se of (st, emitted) \<Rightarrow>
        let operand = bit_fmt base (int idx) (int b)
        in (case ote_map st operand of
              None \<Rightarrow> (st, emitted)
            | Some ctx \<Rightarrow>
                (case ctx of
                   [] \<Rightarrow> (st, emitted)
                 | occ # others \<Rightarrow>
                     (st\<lparr>records := records st @ [bit_record st operand dt base_desc occ]\<rparr>,
                      True))))"

definition sweep_tag :: "tables \<Rightarrow> scan_state \<Rightarrow> string \<Rightarrow> scan_state" where
  "sweep_tag tb st orig =
     (if orig \<in> found_original_tags st then st
      else (case split_index orig of (base, idx) \<Rightarrow>
              let dt = get_or_empty (dtype_map tb) base
              in if dt \<noteq> ''INT'' \<and> dt \<noteq> ''DINT'' then st
                 else
                   let max_bit = (if dt = ''INT'' then 15 else 31);
                       base_desc = get_or_empty (base_desc_map tb) base
                   in (case foldl (sweep_bit base idx dt base_desc) (st, False)
                              [0..<max_bit + 1] of
                         (st', emitted) \<Rightarrow>
                           if emitted
                           then st'\<lparr>found_original_tags :=
                                      insert orig (found_original_tags st')\<rparr>
                           else st')))"

section \<open>Step 7: the rows of the tags that nothing resolved\<close>

definition not_found_record :: "tables \<Rightarrow> string \<Rightarrow> mapping_record" where
  "not_found_record tb tag =
     (case split_index tag of (base, idx) \<Rightarrow>
        \<lparr>Col45 = tag,
         Description = get_or_empty (base_desc_map tb) base,
         DataType = get_or_empty (dtype_map tb) base,
         Program = Some [], Routine = Some [], Rung = Some [],
         Instruction = Not_Found,
         Source = []\<rparr>)"

definition report_unresolved :: "tables \<Rightarrow> scan_state \<Rightarrow> string \<Rightarrow> scan_state" where
  "report_unresolved tb st tag =
     (if tag \<notin> found_original_tags st
      then st\<lparr>records := records st @ [not_found_record tb tag]\<rparr>
      else st)"

section \<open>Step 8: rows without repetition, in the natural order\<close>

text \<open>\<open>DataFrame.drop_duplicates()\<close> keeps the first of several equal rows.\<close>

fun drop_duplicates_from :: "'a list \<Rightarrow> 'a list \<Rightarrow> 'a list" where
  "drop_duplicates_from seen [] = []"
| "drop_duplicates_from seen (x # xs) =
     (if x \<in> set seen then drop_duplicates_from seen xs
      else x # drop_duplicates_from (x # seen) xs)"

definition drop_duplicates :: "'a list \<Rightarrow> 'a list" where
  "drop_duplicates xs = drop_duplicates_from [] xs"

text \<open>
  The three helper columns that \<open>str.extract\<close> fills from \<open>Col45\<close>. A destination that the
  pattern does not match has no base (\<open>NaN\<close>, which \<open>sort_values\<close> puts last: the flag in
  front) and \<open>-1\<close> in both index columns.
\<close>

definition sort_cols :: "string \<Rightarrow> bool \<times> string \<times> int \<times> int" where
  "sort_cols dst =
     (case tag_search [] dst of
        Some (base, i, b) \<Rightarrow> (False, base, group_int i, group_int b)
      | None \<Rightarrow> (True, [], - 1, - 1))"

text \<open>
  \<open>astype(int)\<close> makes the two index columns 64-bit integers and raises
  \<open>OverflowError\<close> for an index or a bit beyond the largest of them.
\<close>

definition fits_int64 :: "bool \<times> string \<times> int \<times> int \<Rightarrow> bool" where
  "fits_int64 k = (case k of (nan, base, i, b) \<Rightarrow> i < 2 ^ 63 \<and> b < 2 ^ 63)"

text \<open>The rows without repetition, in ascending order of the helper columns.\<close>

definition ordered_rows :: "mapping_record list \<Rightarrow> mapping_record list" where
  "ordered_rows recs = sort_key (\<lambda>rec. sort_cols (Col45 rec)) (drop_duplicates recs)"

definition consolidate :: "mapping_record list \<Rightarrow> error + mapping_record list" where
  "consolidate recs =
     (if list_all (\<lambda>rec. fits_int64 (sort_cols (Col45 rec))) (drop_duplicates recs)
      then Inr (ordered_rows recs)
      else Inl OverflowError)"

section \<open>The run\<close>

text \<open>
  \<open>dest_tags_set\<close> is the set of the cells; \<open>tags_sorted\<close> sorts it by \<open>tag_sort_key\<close>
  with Python's stable \<open>sorted\<close>, starting from the order in which the set is visited,
  which is some order without repetition.
\<close>

definition tags_sorted :: "input \<Rightarrow> string list" where
  "tags_sorted inp = sort_key tag_sort_key (remdups (col45 inp))"

definition initial_state :: "tables \<Rightarrow> scan_state" where
  "initial_state tb =
     \<lparr>records = [], found_original_tags = {}, ote_map = Map.empty,
      bit_comments = bit_comment_map tb\<rparr>"

definition scan_phase :: "input \<Rightarrow> error + scan_state" where
  "scan_phase inp =
     scan_rungs (set (col45 inp)) (build_tables (tags inp))
       (initial_state (build_tables (tags inp))) (rungs inp)"

definition sweep_phase :: "input \<Rightarrow> scan_state \<Rightarrow> scan_state" where
  "sweep_phase inp st = foldl (sweep_tag (build_tables (tags inp))) st (tags_sorted inp)"

definition report_phase :: "input \<Rightarrow> scan_state \<Rightarrow> scan_state" where
  "report_phase inp st = foldl (report_unresolved (build_tables (tags inp))) st (tags_sorted inp)"

definition collect_records :: "input \<Rightarrow> error + mapping_record list" where
  "collect_records inp =
     (case scan_phase inp of
        Inl e \<Rightarrow> Inl e
      | Inr st1 \<Rightarrow> Inr (records (report_phase inp (sweep_phase inp st1))))"

definition extract_mappings :: "input \<Rightarrow> error + mapping_record list" where
  "extract_mappings inp =
     (case collect_records inp of
        Inl e \<Rightarrow> Inl e
      | Inr recs \<Rightarrow> consolidate recs)"

section \<open>The rows of each pass, described without the state\<close>

text \<open>
  The proofs relate the loops above to the lists below: what one match, one rung and one
  monitored tag add to \<open>records\<close>.
\<close>

definition occs :: "'a list option \<Rightarrow> 'a list" where
  "occs v = (case v of None \<Rightarrow> [] | Some l \<Rightarrow> l)"

text \<open>The coil operands that the loop over \<open>ote_text_re.findall(txt)\<close> records for a rung.\<close>

definition rung_coils :: "rung \<Rightarrow> string list" where
  "rung_coils r = filter (\<lambda>operand. operand \<noteq> []) (map py_strip (ote_matches r))"

definition coil_occurrences :: "rung list \<Rightarrow> string \<Rightarrow> occurrence list" where
  "coil_occurrences rs operand =
     concat (map (\<lambda>r. map (\<lambda>m. occurrence_of r) (filter (\<lambda>m. m = operand) (rung_coils r))) rs)"

definition cop_rows ::
    "string set \<Rightarrow> tables \<Rightarrow> rung \<Rightarrow> copy_name \<times> string \<times> string \<times> nat \<Rightarrow> mapping_record list" where
  "cop_rows S tb r m = map (cop_record tb r m) (filter (\<lambda>k. cop_dst m k \<in> S) [0..<cop_len m])"

definition mov_rows :: "string set \<Rightarrow> tables \<Rightarrow> rung \<Rightarrow> string \<times> string \<Rightarrow> mapping_record list" where
  "mov_rows S tb r m = (if snd m \<in> S then [mov_record tb r m] else [])"

definition ffl_rows ::
    "string set \<Rightarrow> tables \<Rightarrow> rung \<Rightarrow> string \<times> string \<times> string \<Rightarrow> mapping_record list" where
  "ffl_rows S tb r m =
     (case ffl_length tb m of
        None \<Rightarrow> []
      | Some n \<Rightarrow> map (ffl_record tb r m) (filter (\<lambda>k. ffl_dst m k \<in> S) [0..<nat n]))"

definition msg_rows :: "string set \<Rightarrow> tables \<Rightarrow> rung \<Rightarrow> message_params \<Rightarrow> mapping_record list" where
  "msg_rows S tb r mp =
     (case (local_elem mp, req_len mp) of
        (Some le, Some rl) \<Rightarrow>
          (case (py_int rl,
                 py_int (case local_index_attr mp of None \<Rightarrow> ''0'' | Some s \<Rightarrow> s)) of
             (Some len, Some local_index) \<Rightarrow>
               if le = [] \<or> rl = [] then []
               else map (msg_record tb r le
                          (case remote_elem mp of None \<Rightarrow> [] | Some s \<Rightarrow> s) local_index)
                      (filter (\<lambda>k. msg_dst le local_index k \<in> S) [0..<nat len])
           | _ \<Rightarrow> [])
      | _ \<Rightarrow> [])"

definition rung_rows :: "string set \<Rightarrow> tables \<Rightarrow> rung \<Rightarrow> mapping_record list" where
  "rung_rows S tb r =
     concat (map (cop_rows S tb r) (cop_matches r)) @
     concat (map (mov_rows S tb r) (mov_matches r)) @
     concat (map (ffl_rows S tb r) (ffl_matches r)) @
     concat (map (msg_rows S tb r) (message_elems r))"

text \<open>\<open>st'\<close> is \<open>st\<close> with the rows \<open>rows\<close> appended and their destinations resolved.\<close>

definition extends :: "scan_state \<Rightarrow> scan_state \<Rightarrow> mapping_record list \<Rightarrow> bool" where
  "extends st st' rows =
     (records st' = records st @ rows \<and>
      found_original_tags st' = found_original_tags st \<union> Col45 ` set rows \<and>
      ote_map st' = ote_map st \<and>
      bit_comments st' = bit_comments st)"

text \<open>The bit width that the sweep gives a declared type, if any.\<close>

definition bit_count :: "string \<Rightarrow> nat" where
  "bit_count dt = (if dt = ''INT'' then 16 else if dt = ''DINT'' then 32 else 0)"

definition sweep_rows :: "tables \<Rightarrow> scan_state \<Rightarrow> string \<Rightarrow> mapping_record list" where
  "sweep_rows tb st orig =
     (case split_index orig of (base, idx) \<Rightarrow>
        map (\<lambda>b. bit_record st (bit_fmt base (int idx) (int b))
                   (get_or_empty (dtype_map tb) base)
                   (get_or_empty (base_desc_map tb) base)
                   (hd (occs (ote_map st (bit_fmt base (int idx) (int b))))))
          (filter (\<lambda>b. occs (ote_map st (bit_fmt base (int idx) (int b))) \<noteq> [])
             [0..<bit_count (get_or_empty (dtype_map tb) base)]))"

section \<open>Example runs\<close>

definition rung0 :: rung where
  "rung0 =
     \<lparr>prog_name = Some ''P'', rout_name = Some ''R'', rung_num = Some ''0'',
      ote_matches = [], operand_elems = [], cop_matches = [], mov_matches = [],
      ffl_matches = [], message_elems = []\<rparr>"

definition not_found_row :: "string \<Rightarrow> mapping_record" where
  "not_found_row tag =
     \<lparr>Col45 = tag, Description = [], DataType = [], Program = Some [], Routine = Some [],
      Rung = Some [], Instruction = Not_Found, Source = []\<rparr>"

definition mov_row :: "string \<Rightarrow> string \<Rightarrow> string \<Rightarrow> mapping_record" where
  "mov_row dst num src =
     \<lparr>Col45 = dst, Description = [], DataType = [], Program = Some ''P'', Routine = Some ''R'',
      Rung = Some num, Instruction = MOV, Source = src\<rparr>"

text \<open>
  One monitored tag, moved into twice on rung 0 (two equal rows) and once on rung 1.
\<close>

definition ex_dup :: input where
  "ex_dup =
     \<lparr>col45 = [''T''], tags = [],
      rungs = [rung0\<lparr>mov_matches := [(''A'', ''T''), (''A'', ''T'')]\<rparr>,
               rung0\<lparr>rung_num := Some ''1'', mov_matches := [(''B'', ''T'')]\<rparr>]\<rparr>"

definition ote_row :: "string \<Rightarrow> string \<Rightarrow> string \<Rightarrow> mapping_record" where
  "ote_row dst dt num =
     \<lparr>Col45 = dst, Description = [], DataType = dt, Program = Some ''P'', Routine = Some ''R'',
      Rung = Some num, Instruction = OTE, Source = []\<rparr>"

definition int_tag :: "string \<Rightarrow> string \<Rightarrow> tag_decl" where
  "int_tag name dt =
     \<lparr>tag_name = Some name, tag_dtype = dt, tag_desc = None, tag_comments = [],
      tag_len = None\<rparr>"

text \<open>
  One monitored element of a 16-bit array, no instruction writes it, and a coil drives
  its bit 5 on rung 0.
\<close>

definition ex_bit :: input where
  "ex_bit =
     \<lparr>col45 = [''B[0]''], tags = [int_tag ''B'' ''INT''],
      rungs = [rung0\<lparr>ote_matches := [''B[0].5'']\<rparr>]\<rparr>"

text \<open>
  A monitored 32-bit tag without index whose bit 31 a coil drives on rungs 4 and 7, and
  a monitored tag that nothing mentions.
\<close>

definition ex_dint :: input where
  "ex_dint =
     \<lparr>col45 = [''Flag'', ''W''], tags = [int_tag ''W'' ''DINT''],
      rungs = [rung0\<lparr>rung_num := Some ''4'', ote_matches := [''W[0].31'']\<rparr>,
               rung0\<lparr>rung_num := Some ''7'', ote_matches := [''W[0].31'']\<rparr>]\<rparr>"

definition cop_row :: "string \<Rightarrow> string \<Rightarrow> mapping_record" where
  "cop_row dst src =
     \<lparr>Col45 = dst, Description = [], DataType = [], Program = Some ''P'', Routine = Some ''R'',
      Rung = Some ''0'', Instruction = COP, Source = src\<rparr>"

text \<open>
  The example of the specification: three monitored elements and one block copy of
  length 3 from \<open>Z[5]\<close> to \<open>Y[0]\<close>.
\<close>

definition ex_cop :: input where
  "ex_cop =
     \<lparr>col45 = [''Y[0]'', ''Y[1]'', ''Y[2]''], tags = [],
      rungs = [rung0\<lparr>cop_matches := [(Cop, ''Z[5]'', ''Y[0]'', 3)]\<rparr>]\<rparr>"

definition control_tag :: "string \<Rightarrow> string \<Rightarrow> tag_decl" where
  "control_tag name len =
     \<lparr>tag_name = Some name, tag_dtype = ''CONTROL'', tag_desc = None, tag_comments = [],
      tag_len = Some (Some len)\<rparr>"

definition ffl_row :: "string \<Rightarrow> string \<Rightarrow> mapping_record" where
  "ffl_row dst src =
     \<lparr>Col45 = dst, Description = [], DataType = [], Program = Some ''P'', Routine = Some ''R'',
      Rung = Some ''0'', Instruction = FFL, Source = src\<rparr>"

text \<open>
  A queue of length 2 loaded from \<open>S[2]\<close> into \<open>Q[0]\<close>; the second element of the queue
  is monitored.
\<close>

definition ex_ffl :: input where
  "ex_ffl =
     \<lparr>col45 = [''Q[1]''], tags = [control_tag ''CTL'' ''2''],
      rungs = [rung0\<lparr>ffl_matches := [(''S[2]'', ''Q[0]'', ''CTL'')]\<rparr>]\<rparr>"

text \<open>
  A tag declaration gives a control length: its name is not empty, its type is
  \<open>CONTROL\<close>, it has a \<open>LEN\<close> member with a \<open>Value\<close> attribute, and \<open>int()\<close> accepts the
  value.
\<close>

definition len_resolvable :: "tag_decl \<Rightarrow> bool" where
  "len_resolvable t =
     (tag_name t \<noteq> Some [] \<and> tag_dtype t = ''CONTROL'' \<and>
      (case tag_len t of
         None \<Rightarrow> False
       | Some None \<Rightarrow> False
       | Some (Some v) \<Rightarrow> py_int v \<noteq> None))"

text \<open>The queue of \<open>ex_ffl\<close>, with a length that is not a number.\<close>

definition ex_ffl_unknown :: input where
  "ex_ffl_unknown =
     \<lparr>col45 = [''Q[1]''], tags = [control_tag ''CTL'' ''two''], rungs = []\<rparr>"

text \<open>
  A monitored element of a 16-bit array that no instruction writes; the only coil of
  the program drives a bit of another array.
\<close>

definition ex_no_coil :: input where
  "ex_no_coil =
     \<lparr>col45 = [''N[3]''], tags = [int_tag ''N'' ''INT''],
      rungs = [rung0\<lparr>ote_matches := [''M[3].1'']\<rparr>]\<rparr>"

text \<open>
  An identifier carries an index suffix when the pattern of \<open>split_index\<close>,
  \<open>^(.+?)\[(\d+)\]$\<close>, matches it: a non-empty base and an index of digits in brackets.
\<close>

definition has_index_suffix :: "string \<Rightarrow> bool" where
  "has_index_suffix t = (split_search [] t \<noteq> None)"

text \<open>
  What the group \<open>([^,\s\)]+)\<close> of the instruction patterns can return: a non-empty
  string without comma, white space or closing parenthesis. \<open>pattern_operands\<close> says
  this of the destination operands of the block-copy and queue-load matches of an
  input.
\<close>

definition operand_ok :: "string \<Rightarrow> bool" where
  "operand_ok s =
     (s \<noteq> [] \<and> list_all (\<lambda>c. \<not> py_isspace c \<and> c \<noteq> CHR '','' \<and> c \<noteq> CHR '')'') s)"

definition pattern_operands :: "input \<Rightarrow> bool" where
  "pattern_operands inp =
     list_all
       (\<lambda>r. list_all (\<lambda>m. operand_ok (fst (snd (snd m)))) (cop_matches r) \<and>
            list_all (\<lambda>m. operand_ok (fst (snd m))) (ffl_matches r))
       (rungs inp)"


definition msg_row :: "string \<Rightarrow> string \<Rightarrow> mapping_record" where
  "msg_row dst src =
     \<lparr>Col45 = dst, Description = [], DataType = [], Program = Some ''P'', Routine = Some ''R'',
      Rung = Some ''0'', Instruction = MESSAGE, Source = src\<rparr>"

text \<open>
  A message request of two elements from \<open>R[1]\<close> into \<open>L\<close> from index 4 on, and a move
  into the tag \<open>T\<close>; \<open>L[5]\<close>, \<open>L\<close> and \<open>T\<close> are monitored.
\<close>

definition ex_msg :: input where
  "ex_msg =
     \<lparr>col45 = [''L[5]'', ''L'', ''T''], tags = [],
      rungs = [rung0\<lparr>mov_matches := [(''A'', ''T'')],
                     message_elems :=
                       [\<lparr>local_elem = Some ''L'', req_len = Some ''2'',
                         local_index_attr = Some ''4'', remote_elem = Some ''R[1]''\<rparr>]\<rparr>]\<rparr>"

text \<open>
  A message request of one element into \<open>L\<close> with the local index \<open>-1\<close>; the identifier
  \<open>L[-1]\<close> is monitored.
\<close>

definition ex_neg :: input where
  "ex_neg =
     \<lparr>col45 = [''L[-1]''], tags = [],
      rungs = [rung0\<lparr>message_elems :=
                       [\<lparr>local_elem = Some ''L'', req_len = Some ''1'',
                         local_index_attr = Some ''-1'', remote_elem = Some ''R''\<rparr>]\<rparr>]\<rparr>"

text \<open>A monitored identifier of a single bit; the program has no rung.\<close>

definition ex_bit_tag :: input where
  "ex_bit_tag = \<lparr>col45 = [''B[0].5''], tags = [], rungs = []\<rparr>"


section \<open>Properties of the consolidation\<close>

lemma set_drop_duplicates_from: "set (drop_duplicates_from seen xs) = set xs - set seen"
  by (induction xs arbitrary: seen) auto

lemma distinct_drop_duplicates_from: "distinct (drop_duplicates_from seen xs)"
  by (induction xs arbitrary: seen) (auto simp: set_drop_duplicates_from)

lemma set_consolidate: "set (ordered_rows recs) = set recs"
  by (simp add: ordered_rows_def drop_duplicates_def set_drop_duplicates_from)

lemma distinct_consolidate: "distinct (ordered_rows recs)"
  by (simp add: ordered_rows_def drop_duplicates_def distinct_drop_duplicates_from)







lemma extract_mappings_consolidate:
  "extract_mappings inp = Inr out \<Longrightarrow>
   \<exists>recs. collect_records inp = Inr recs \<and> out = ordered_rows recs"
  by (auto simp: extract_mappings_def consolidate_def split: sum.splits if_splits)

text \<open>
  C9. No row occurs twice in the final table, and the table has exactly the rows that
  the passes collected: rows that differ in some field stay, also when they have the
  same destination.
\<close>

theorem no_duplicate_rows:
  assumes "extract_mappings inp = Inr out"
  shows "distinct out \<and> (\<forall>recs. collect_records inp = Inr recs \<longrightarrow> set out = set recs)"
proof -
  from assms obtain recs where "collect_records inp = Inr recs" and "out = ordered_rows recs"
    using extract_mappings_consolidate by blast
  then show ?thesis by (simp add: distinct_consolidate set_consolidate)
qed

theorem no_duplicate_rows_witness:
  "extract_mappings ex_dup = Inr [mov_row ''T'' ''0'' ''A'', mov_row ''T'' ''1'' ''B''] \<and>
   collect_records ex_dup =
     Inr [mov_row ''T'' ''0'' ''A'', mov_row ''T'' ''0'' ''A'', mov_row ''T'' ''1'' ''B''] \<and>
   distinct [mov_row ''T'' ''0'' ''A'', mov_row ''T'' ''1'' ''B'']"
proof -
  have h: "extract_mappings ex_dup = Inr [mov_row ''T'' ''0'' ''A'', mov_row ''T'' ''1'' ''B'']"
    by code_simp
  have c: "collect_records ex_dup =
     Inr [mov_row ''T'' ''0'' ''A'', mov_row ''T'' ''0'' ''A'', mov_row ''T'' ''1'' ''B'']"
    by code_simp
  from no_duplicate_rows [OF h] show ?thesis using h c by simp
qed

section \<open>The loops of the rung pass append rows\<close>

lemma extends_refl: "extends st st []"
  by (simp add: extends_def)

lemma extends_trans: "extends st st' xs \<Longrightarrow> extends st' st'' ys \<Longrightarrow> extends st st'' (xs @ ys)"
  by (auto simp: extends_def)

lemma extends_add_record: "extends st (add_record st rec) [rec]"
  by (simp add: extends_def add_record_def)

lemma extends_foldl:
  assumes "\<And>s x. extends s (f s x) (g x)"
  shows "extends st (foldl f st xs) (concat (map g xs))"
proof (induction xs arbitrary: st)
  case Nil
  show ?case by (simp add: extends_refl)
next
  case (Cons x xs)
  have "extends st (f st x) (g x)" by (rule assms)
  moreover have "extends (f st x) (foldl f (f st x) xs) (concat (map g xs))" by (rule Cons.IH)
  ultimately show ?case using extends_trans by fastforce
qed

lemma concat_map_if: "concat (map (\<lambda>x. if P x then [f x] else []) xs) = map f (filter P xs)"
  by (induction xs) auto

lemma extends_scan_cop: "extends st (scan_cop S tb r st m) (cop_rows S tb r m)"
proof -
  have "extends st (scan_cop S tb r st m)
          (concat (map (\<lambda>k. if cop_dst m k \<in> S then [cop_record tb r m k] else []) [0..<cop_len m]))"
    unfolding scan_cop_def
    by (rule extends_foldl) (simp add: extends_refl extends_add_record)
  then show ?thesis by (simp add: cop_rows_def concat_map_if)
qed

lemma extends_scan_mov: "extends st (scan_mov S tb r st m) (mov_rows S tb r m)"
  by (simp add: scan_mov_def mov_rows_def extends_refl extends_add_record)

lemma extends_scan_ffl: "extends st (scan_ffl S tb r st m) (ffl_rows S tb r m)"
proof (cases "ffl_length tb m")
  case None
  then show ?thesis by (simp add: scan_ffl_def ffl_rows_def extends_refl)
next
  case (Some n)
  show ?thesis
  proof (cases "n = 0")
    case True
    with Some show ?thesis by (simp add: scan_ffl_def ffl_rows_def extends_refl)
  next
    case False
    have "extends st (foldl (\<lambda>s k. if ffl_dst m k \<in> S then add_record s (ffl_record tb r m k) else s) st [0..<nat n])
          (concat (map (\<lambda>k. if ffl_dst m k \<in> S then [ffl_record tb r m k] else []) [0..<nat n]))"
      by (rule extends_foldl) (simp add: extends_refl extends_add_record)
    with Some False show ?thesis by (simp add: scan_ffl_def ffl_rows_def concat_map_if)
  qed
qed

lemma extends_scan_message:
  "scan_message S tb r st mp = Inr st' \<Longrightarrow> extends st st' (msg_rows S tb r mp)"
proof -
  assume a: "scan_message S tb r st mp = Inr st'"
  have f: "\<And>le re li n. extends st (foldl (\<lambda>s k. if msg_dst le li k \<in> S then add_record s (msg_record tb r le re li k) else s) st [0..<n])
          (map (msg_record tb r le re li) (filter (\<lambda>k. msg_dst le li k \<in> S) [0..<n]))"
  proof -
    fix le re li n
    have "extends st (foldl (\<lambda>s k. if msg_dst le li k \<in> S then add_record s (msg_record tb r le re li k) else s) st [0..<n])
          (concat (map (\<lambda>k. if msg_dst le li k \<in> S then [msg_record tb r le re li k] else []) [0..<n]))"
      by (rule extends_foldl) (simp add: extends_refl extends_add_record)
    then show "extends st (foldl (\<lambda>s k. if msg_dst le li k \<in> S then add_record s (msg_record tb r le re li k) else s) st [0..<n])
          (map (msg_record tb r le re li) (filter (\<lambda>k. msg_dst le li k \<in> S) [0..<n]))"
      by (simp add: concat_map_if)
  qed
  from a show ?thesis
    by (auto simp: scan_message_def msg_rows_def extends_refl f Let_def split: option.splits if_splits)
qed

lemma extends_scan_messages:
  "scan_messages S tb r st mps = Inr st' \<Longrightarrow> extends st st' (concat (map (msg_rows S tb r) mps))"
proof (induction mps arbitrary: st)
  case Nil
  then show ?case by (simp add: extends_refl)
next
  case (Cons mp mps)
  then show ?case
    by (auto split: sum.splits dest!: extends_scan_message intro: extends_trans)
qed


lemma track_coil_frame:
  "records (track_coil occ st m) = records st"
  "found_original_tags (track_coil occ st m) = found_original_tags st"
  "bit_comments (track_coil occ st m) = bit_comments st"
  by (simp_all add: track_coil_def Let_def)

lemma track_coil_occs:
  "occs (ote_map (track_coil occ st m) operand) =
     occs (ote_map st operand) @ (if py_strip m = operand \<and> operand \<noteq> [] then [occ] else [])"
  by (auto simp: track_coil_def Let_def occs_def)

lemma foldl_track_coil_frame:
  "records (foldl (track_coil occ) st ms) = records st"
  "found_original_tags (foldl (track_coil occ) st ms) = found_original_tags st"
  "bit_comments (foldl (track_coil occ) st ms) = bit_comments st"
  by (induction ms arbitrary: st) (simp_all add: track_coil_frame)

lemma foldl_track_coil_occs:
  "occs (ote_map (foldl (track_coil occ) st ms) operand) =
     occs (ote_map st operand) @
     map (\<lambda>m. occ) (filter (\<lambda>m. m = operand) (filter (\<lambda>operand. operand \<noteq> []) (map py_strip ms)))"
  by (induction ms arbitrary: st) (auto simp: track_coil_occs)

lemma note_comment_frame:
  "records (note_comment st e) = records st"
  "found_original_tags (note_comment st e) = found_original_tags st"
  "ote_map (note_comment st e) = ote_map st"
  by (auto simp: note_comment_def split: prod.splits option.splits)

lemma foldl_note_comment_frame:
  "records (foldl note_comment st es) = records st"
  "found_original_tags (foldl note_comment st es) = found_original_tags st"
  "ote_map (foldl note_comment st es) = ote_map st"
  by (induction es arbitrary: st) (simp_all add: note_comment_frame)

lemma scan_rung_rows:
  assumes "scan_rung S tb st r = Inr st'"
  shows "records st' = records st @ rung_rows S tb r"
    and "found_original_tags st' = found_original_tags st \<union> Col45 ` set (rung_rows S tb r)"
    and "occs (ote_map st' operand) =
           occs (ote_map st operand) @
           map (\<lambda>m. occurrence_of r) (filter (\<lambda>m. m = operand) (rung_coils r))"
proof -
  define st2 where "st2 = foldl note_comment (foldl (track_coil (occurrence_of r)) st (ote_matches r)) (operand_elems r)"
  define st3 where "st3 = foldl (scan_cop S tb r) st2 (cop_matches r)"
  define st4 where "st4 = foldl (scan_mov S tb r) st3 (mov_matches r)"
  define st5 where "st5 = foldl (scan_ffl S tb r) st4 (ffl_matches r)"
  have m: "scan_messages S tb r st5 (message_elems r) = Inr st'"
    using assms by (simp add: scan_rung_def Let_def st2_def st3_def st4_def st5_def)
  have e3: "extends st2 st3 (concat (map (cop_rows S tb r) (cop_matches r)))"
    unfolding st3_def by (rule extends_foldl) (rule extends_scan_cop)
  have e4: "extends st3 st4 (concat (map (mov_rows S tb r) (mov_matches r)))"
    unfolding st4_def by (rule extends_foldl) (rule extends_scan_mov)
  have e5: "extends st4 st5 (concat (map (ffl_rows S tb r) (ffl_matches r)))"
    unfolding st5_def by (rule extends_foldl) (rule extends_scan_ffl)
  have e6: "extends st5 st' (concat (map (msg_rows S tb r) (message_elems r)))"
    using m by (rule extends_scan_messages)
  have e: "extends st2 st' (rung_rows S tb r)"
    unfolding rung_rows_def
    by (rule extends_trans [OF e3 extends_trans [OF e4 extends_trans [OF e5 e6]]])
  have r2: "records st2 = records st" and f2: "found_original_tags st2 = found_original_tags st"
    by (simp_all add: st2_def foldl_note_comment_frame foldl_track_coil_frame)
  have o2: "occs (ote_map st2 operand) =
           occs (ote_map st operand) @
           map (\<lambda>m. occurrence_of r) (filter (\<lambda>m. m = operand) (rung_coils r))"
    by (simp add: st2_def foldl_note_comment_frame foldl_track_coil_occs rung_coils_def)
  from e r2 show "records st' = records st @ rung_rows S tb r" by (simp add: extends_def)
  from e f2 show "found_original_tags st' = found_original_tags st \<union> Col45 ` set (rung_rows S tb r)"
    by (simp add: extends_def)
  from e o2 show "occs (ote_map st' operand) =
           occs (ote_map st operand) @
           map (\<lambda>m. occurrence_of r) (filter (\<lambda>m. m = operand) (rung_coils r))"
    by (simp add: extends_def)
qed

lemma scan_rungs_rows:
  "scan_rungs S tb st rs = Inr st' \<Longrightarrow>
   records st' = records st @ concat (map (rung_rows S tb) rs) \<and>
   found_original_tags st' =
     found_original_tags st \<union> Col45 ` set (concat (map (rung_rows S tb) rs)) \<and>
   (\<forall>operand. occs (ote_map st' operand) = occs (ote_map st operand) @ coil_occurrences rs operand)"
proof (induction rs arbitrary: st)
  case Nil
  then show ?case by (simp add: coil_occurrences_def)
next
  case (Cons r rs)
  from Cons.prems obtain st1 where s1: "scan_rung S tb st r = Inr st1"
    and s2: "scan_rungs S tb st1 rs = Inr st'"
    by (auto split: sum.splits)
  note h = scan_rung_rows [OF s1] Cons.IH [OF s2]
  show ?case
    using h by (auto simp: coil_occurrences_def)
qed

lemma scan_phase_rows:
  assumes "scan_phase inp = Inr st1"
  shows "records st1 = concat (map (rung_rows (set (col45 inp)) (build_tables (tags inp))) (rungs inp))"
    and "found_original_tags st1 = Col45 ` set (records st1)"
    and "occs (ote_map st1 operand) = coil_occurrences (rungs inp) operand"
  using scan_rungs_rows [OF assms [unfolded scan_phase_def]]
  by (simp_all add: initial_state_def occs_def)


section \<open>The sweep and the report append rows\<close>

lemma bit_record_records_upd [simp]:
  "bit_record (st\<lparr>records := x\<rparr>) = bit_record st"
  by (simp add: bit_record_def fun_eq_iff)

lemma sweep_bit_step:
  "sweep_bit base idx dt bd (st, e) b =
     (if occs (ote_map st (bit_fmt base (int idx) (int b))) = [] then (st, e)
      else (st\<lparr>records := records st @
                 [bit_record st (bit_fmt base (int idx) (int b)) dt bd
                    (hd (occs (ote_map st (bit_fmt base (int idx) (int b)))))]\<rparr>, True))"
  by (simp add: sweep_bit_def Let_def occs_def split: option.splits list.splits)

lemma foldl_sweep_bit:
  "foldl (sweep_bit base idx dt bd) (st, e) bs =
     (st\<lparr>records := records st @
          map (\<lambda>b. bit_record st (bit_fmt base (int idx) (int b)) dt bd
                     (hd (occs (ote_map st (bit_fmt base (int idx) (int b))))))
            (filter (\<lambda>b. occs (ote_map st (bit_fmt base (int idx) (int b))) \<noteq> []) bs)\<rparr>,
      e \<or> filter (\<lambda>b. occs (ote_map st (bit_fmt base (int idx) (int b))) \<noteq> []) bs \<noteq> [])"
proof (induction bs arbitrary: st e)
  case Nil
  show ?case by simp
next
  case (Cons b bs)
  show ?case
    by (simp add: sweep_bit_step Cons.IH)
qed


lemma sweep_tag_eq:
  "sweep_tag tb st orig =
     (if orig \<in> found_original_tags st then st
      else if sweep_rows tb st orig = [] then st\<lparr>records := records st @ sweep_rows tb st orig\<rparr>
      else st\<lparr>records := records st @ sweep_rows tb st orig,
              found_original_tags := insert orig (found_original_tags st)\<rparr>)"
proof (cases "split_index orig")
  case (Pair base idx)
  define dt where "dt = get_or_empty (dtype_map tb) base"
  consider "dt = ''INT''" | "dt = ''DINT''" | "dt \<noteq> ''INT'' \<and> dt \<noteq> ''DINT''" by blast
  then show ?thesis
  proof cases
    case 1
    then show ?thesis
      using Pair dt_def
      by (simp add: sweep_tag_def sweep_rows_def bit_count_def Let_def foldl_sweep_bit
               del: upt_rec_numeral upt_Suc)
  next
    case 2
    then show ?thesis
      using Pair dt_def
      by (simp add: sweep_tag_def sweep_rows_def bit_count_def Let_def foldl_sweep_bit
               del: upt_rec_numeral upt_Suc)
  next
    case 3
    then show ?thesis
      using Pair dt_def
      by (simp add: sweep_tag_def sweep_rows_def bit_count_def Let_def)
  qed
qed


lemma sweep_tag_frame:
  "ote_map (sweep_tag tb st orig) = ote_map st"
  "bit_comments (sweep_tag tb st orig) = bit_comments st"
  by (simp_all add: sweep_tag_eq)

lemma sweep_tag_records:
  "records (sweep_tag tb st orig) =
     records st @ (if orig \<in> found_original_tags st then [] else sweep_rows tb st orig)"
  by (simp add: sweep_tag_eq)

lemma sweep_tag_found:
  "found_original_tags (sweep_tag tb st orig) =
     found_original_tags st \<union>
     (if orig \<notin> found_original_tags st \<and> sweep_rows tb st orig \<noteq> [] then {orig} else {})"
  by (simp add: sweep_tag_eq)

lemma sweep_rows_cong:
  "ote_map st' = ote_map st \<Longrightarrow> bit_comments st' = bit_comments st \<Longrightarrow>
   sweep_rows tb st' orig = sweep_rows tb st orig"
  by (simp add: sweep_rows_def bit_record_def split: prod.splits)

lemma foldl_sweep_tag:
  "distinct ts \<Longrightarrow>
   records (foldl (sweep_tag tb) st ts) =
     records st @
     concat (map (\<lambda>t. if t \<in> found_original_tags st then [] else sweep_rows tb st t) ts) \<and>
   found_original_tags (foldl (sweep_tag tb) st ts) =
     found_original_tags st \<union>
     {t \<in> set ts. t \<notin> found_original_tags st \<and> sweep_rows tb st t \<noteq> []}"
proof (induction ts arbitrary: st)
  case Nil
  show ?case by simp
next
  case (Cons t ts)
  define st' where "st' = sweep_tag tb st t"
  have d: "distinct ts" and nt: "t \<notin> set ts" using Cons.prems by simp_all
  have rows: "\<And>u. sweep_rows tb st' u = sweep_rows tb st u"
    by (rule sweep_rows_cong) (simp_all add: st'_def sweep_tag_frame)
  have mem: "\<And>u. u \<in> set ts \<Longrightarrow>
      (u \<in> found_original_tags st') = (u \<in> found_original_tags st)"
    using nt by (auto simp: st'_def sweep_tag_found)
  have c: "concat (map (\<lambda>u. if u \<in> found_original_tags st' then [] else sweep_rows tb st' u) ts) =
           concat (map (\<lambda>u. if u \<in> found_original_tags st then [] else sweep_rows tb st u) ts)"
    using mem by (intro arg_cong [where f = concat] map_cong) (simp_all add: rows)
  have s: "{u \<in> set ts. u \<notin> found_original_tags st' \<and> sweep_rows tb st' u \<noteq> []} =
           {u \<in> set ts. u \<notin> found_original_tags st \<and> sweep_rows tb st u \<noteq> []}"
    using mem by (auto simp: rows)
  have r': "records st' =
     records st @ (if t \<in> found_original_tags st then [] else sweep_rows tb st t)"
    by (simp add: st'_def sweep_tag_records)
  have f': "found_original_tags st' =
     found_original_tags st \<union>
     (if t \<notin> found_original_tags st \<and> sweep_rows tb st t \<noteq> [] then {t} else {})"
    by (simp add: st'_def sweep_tag_found)
  have ih: "records (foldl (sweep_tag tb) st' ts) =
     records st' @
     concat (map (\<lambda>t. if t \<in> found_original_tags st then [] else sweep_rows tb st t) ts)"
    "found_original_tags (foldl (sweep_tag tb) st' ts) =
     found_original_tags st' \<union>
     {t \<in> set ts. t \<notin> found_original_tags st \<and> sweep_rows tb st t \<noteq> []}"
    using Cons.IH [OF d, of st'] unfolding c s by simp_all
  have "records (foldl (sweep_tag tb) st (t # ts)) =
     records st @
     concat (map (\<lambda>t. if t \<in> found_original_tags st then [] else sweep_rows tb st t) (t # ts))"
    by (simp add: st'_def [symmetric] ih r')
  moreover have "found_original_tags (foldl (sweep_tag tb) st (t # ts)) =
     found_original_tags st \<union>
     {u \<in> set (t # ts). u \<notin> found_original_tags st \<and> sweep_rows tb st u \<noteq> []}"
    unfolding foldl_Cons st'_def [symmetric] ih f' by auto
  ultimately show ?case by blast
qed

lemma distinct_tags_sorted: "distinct (tags_sorted inp)"
  unfolding tags_sorted_def by (simp only: distinct_sort distinct_remdups)

lemma set_tags_sorted: "set (tags_sorted inp) = set (col45 inp)"
  unfolding tags_sorted_def by (simp only: set_sort set_remdups)

lemma foldl_report_unresolved:
  "records (foldl (report_unresolved tb) st ts) =
     records st @ map (not_found_record tb) (filter (\<lambda>t. t \<notin> found_original_tags st) ts) \<and>
   found_original_tags (foldl (report_unresolved tb) st ts) = found_original_tags st"
proof (induction ts arbitrary: st)
  case Nil
  show ?case by simp
next
  case (Cons t ts)
  define st' where "st' = report_unresolved tb st t"
  have r: "records st' = records st @ (if t \<notin> found_original_tags st then [not_found_record tb t] else [])"
    and f: "found_original_tags st' = found_original_tags st"
    by (simp_all add: st'_def report_unresolved_def)
  have "foldl (report_unresolved tb) st (t # ts) = foldl (report_unresolved tb) st' ts"
    by (simp only: foldl_Cons st'_def)
  then show ?case
    using Cons.IH [of st'] by (simp only: r f) simp
qed

lemma collect_records_rows:
  assumes "collect_records inp = Inr recs"
  obtains st1 where "scan_phase inp = Inr st1"
    and "recs = records st1 @
           concat (map (\<lambda>t. if t \<in> found_original_tags st1 then []
                             else sweep_rows (build_tables (tags inp)) st1 t) (tags_sorted inp)) @
           map (not_found_record (build_tables (tags inp)))
             (filter (\<lambda>t. t \<notin> found_original_tags st1 \<and>
                           sweep_rows (build_tables (tags inp)) st1 t = []) (tags_sorted inp))"
proof -
  from assms obtain st1 where s: "scan_phase inp = Inr st1"
    and r: "recs = records (report_phase inp (sweep_phase inp st1))"
    by (auto simp: collect_records_def split: sum.splits)
  define tb where "tb = build_tables (tags inp)"
  define st2 where "st2 = sweep_phase inp st1"
  have sw: "records st2 = records st1 @
     concat (map (\<lambda>t. if t \<in> found_original_tags st1 then [] else sweep_rows tb st1 t) (tags_sorted inp))"
    "found_original_tags st2 = found_original_tags st1 \<union>
     {t \<in> set (tags_sorted inp). t \<notin> found_original_tags st1 \<and> sweep_rows tb st1 t \<noteq> []}"
    using foldl_sweep_tag [OF distinct_tags_sorted, of tb st1 inp]
    by (simp_all add: st2_def sweep_phase_def tb_def)
  have f: "filter (\<lambda>t. t \<notin> found_original_tags st2) (tags_sorted inp) =
           filter (\<lambda>t. t \<notin> found_original_tags st1 \<and> sweep_rows tb st1 t = []) (tags_sorted inp)"
    by (rule filter_cong) (auto simp: sw)
  have "records (report_phase inp st2) =
     records st2 @ map (not_found_record tb) (filter (\<lambda>t. t \<notin> found_original_tags st2) (tags_sorted inp))"
    using foldl_report_unresolved [of tb st2 "tags_sorted inp"]
    by (simp add: report_phase_def tb_def)
  then have "recs = records st1 @
           concat (map (\<lambda>t. if t \<in> found_original_tags st1 then []
                             else sweep_rows tb st1 t) (tags_sorted inp)) @
           map (not_found_record tb)
             (filter (\<lambda>t. t \<notin> found_original_tags st1 \<and> sweep_rows tb st1 t = []) (tags_sorted inp))"
    unfolding r st2_def [symmetric] by (simp add: sw(1) f)
  with s show ?thesis unfolding tb_def by (rule that)
qed

section \<open>The fields of the rows\<close>

lemma Col45_cop_record: "Col45 (cop_record tb r m k) = cop_dst m k"
  by (simp add: cop_record_def cop_dst_def split: prod.splits)

lemma Col45_ffl_record: "Col45 (ffl_record tb r m k) = ffl_dst m k"
  by (simp add: ffl_record_def ffl_dst_def split: prod.splits)

lemma Col45_msg_record: "Col45 (msg_record tb r le re li k) = msg_dst le li k"
  by (simp add: msg_record_def msg_dst_def split: prod.splits)

lemma Col45_mov_record: "Col45 (mov_record tb r m) = snd m"
  by (simp add: mov_record_def split: prod.splits)

lemma cop_rows_monitored: "rec \<in> set (cop_rows S tb r m) \<Longrightarrow> Col45 rec \<in> S"
  by (auto simp: cop_rows_def Col45_cop_record)

lemma mov_rows_monitored: "rec \<in> set (mov_rows S tb r m) \<Longrightarrow> Col45 rec \<in> S"
  by (auto simp: mov_rows_def Col45_mov_record split: if_splits)

lemma ffl_rows_monitored: "rec \<in> set (ffl_rows S tb r m) \<Longrightarrow> Col45 rec \<in> S"
  by (auto simp: ffl_rows_def Col45_ffl_record split: option.splits)

lemma msg_rows_monitored: "rec \<in> set (msg_rows S tb r mp) \<Longrightarrow> Col45 rec \<in> S"
  by (auto simp: msg_rows_def Col45_msg_record split: option.splits if_splits)

lemma rung_rows_cases:
  assumes "rec \<in> set (rung_rows S tb r)"
  obtains m where "m \<in> set (cop_matches r)" "rec \<in> set (cop_rows S tb r m)"
  | m where "m \<in> set (mov_matches r)" "rec \<in> set (mov_rows S tb r m)"
  | m where "m \<in> set (ffl_matches r)" "rec \<in> set (ffl_rows S tb r m)"
  | mp where "mp \<in> set (message_elems r)" "rec \<in> set (msg_rows S tb r mp)"
  using assms unfolding rung_rows_def by auto

lemma rung_rows_monitored: "rec \<in> set (rung_rows S tb r) \<Longrightarrow> Col45 rec \<in> S"
  by (erule rung_rows_cases)
     (simp_all add: cop_rows_monitored mov_rows_monitored ffl_rows_monitored msg_rows_monitored)

lemma Instruction_cop_rows:
  "rec \<in> set (cop_rows S tb r m) \<Longrightarrow> Instruction rec = COP \<or> Instruction rec = CPS"
  by (cases m; cases "fst m") (auto simp: cop_rows_def cop_record_def split: prod.splits)

lemma Instruction_mov_rows: "rec \<in> set (mov_rows S tb r m) \<Longrightarrow> Instruction rec = MOV"
  by (auto simp: mov_rows_def mov_record_def split: prod.splits if_splits)

lemma Instruction_ffl_rows: "rec \<in> set (ffl_rows S tb r m) \<Longrightarrow> Instruction rec = FFL"
  by (auto simp: ffl_rows_def ffl_record_def split: prod.splits option.splits)

lemma Instruction_msg_rows: "rec \<in> set (msg_rows S tb r mp) \<Longrightarrow> Instruction rec = MESSAGE"
  by (auto simp: msg_rows_def msg_record_def split: prod.splits option.splits if_splits)

lemma Instruction_rung_rows:
  "rec \<in> set (rung_rows S tb r) \<Longrightarrow>
   Instruction rec \<noteq> OTE \<and> Instruction rec \<noteq> Not_Found"
  by (erule rung_rows_cases)
     (auto dest: Instruction_cop_rows Instruction_mov_rows Instruction_ffl_rows
                 Instruction_msg_rows)

lemma bit_count_le: "bit_count dt \<le> 32"
  by (simp add: bit_count_def)

lemma sweep_rows_member:
  assumes "rec \<in> set (sweep_rows tb st t)"
  obtains b where "b < bit_count (get_or_empty (dtype_map tb) (fst (split_index t)))"
    and "Col45 rec = bit_fmt (fst (split_index t)) (int (snd (split_index t))) (int b)"
    and "occs (ote_map st (Col45 rec)) \<noteq> []"
    and "(Program rec, Routine rec, Rung rec) = hd (occs (ote_map st (Col45 rec)))"
    and "Instruction rec = OTE" and "Source rec = []"
  using assms
  by (cases "split_index t") (auto simp: sweep_rows_def bit_record_def)

lemma not_found_record_fields:
  "Col45 (not_found_record tb t) = t" "Instruction (not_found_record tb t) = Not_Found"
  by (simp_all add: not_found_record_def split: prod.splits)

section \<open>Completeness and destinations of the final table\<close>

lemma set_out:
  assumes "extract_mappings inp = Inr out"
  obtains st1 where "scan_phase inp = Inr st1"
    and "set out =
           set (records st1) \<union>
           (\<Union>t \<in> {t \<in> set (col45 inp). t \<notin> found_original_tags st1}.
               set (sweep_rows (build_tables (tags inp)) st1 t)) \<union>
           not_found_record (build_tables (tags inp)) `
             {t \<in> set (col45 inp). t \<notin> found_original_tags st1 \<and>
                sweep_rows (build_tables (tags inp)) st1 t = []}"
proof -
  from assms obtain recs where c: "collect_records inp = Inr recs" and o: "out = ordered_rows recs"
    using extract_mappings_consolidate by blast
  from c obtain st1 where s: "scan_phase inp = Inr st1"
    and r: "recs = records st1 @
           concat (map (\<lambda>t. if t \<in> found_original_tags st1 then []
                             else sweep_rows (build_tables (tags inp)) st1 t) (tags_sorted inp)) @
           map (not_found_record (build_tables (tags inp)))
             (filter (\<lambda>t. t \<notin> found_original_tags st1 \<and>
                           sweep_rows (build_tables (tags inp)) st1 t = []) (tags_sorted inp))"
    by (rule collect_records_rows)
  have "set out = set recs" by (simp add: o set_consolidate)
  also have "\<dots> = set (records st1) \<union>
           (\<Union>t \<in> {t \<in> set (col45 inp). t \<notin> found_original_tags st1}.
               set (sweep_rows (build_tables (tags inp)) st1 t)) \<union>
           not_found_record (build_tables (tags inp)) `
             {t \<in> set (col45 inp). t \<notin> found_original_tags st1 \<and>
                sweep_rows (build_tables (tags inp)) st1 t = []}"
    unfolding r by (auto simp: set_tags_sorted)
  finally show ?thesis using s that by blast
qed

lemma scan_phase_member:
  assumes "scan_phase inp = Inr st1"
  shows "rec \<in> set (records st1) \<longleftrightarrow>
         (\<exists>r \<in> set (rungs inp). rec \<in> set (rung_rows (set (col45 inp)) (build_tables (tags inp)) r))"
  by (simp add: scan_phase_rows(1) [OF assms])

text \<open>
  C1, as amended. Every monitored tag has a row of its own in the final table, or the
  table has at least one row of kind \<open>OTE\<close> whose destination is one of the bits
  \<open>base[idx].b\<close> of the tag, with \<open>b\<close> below 32, where \<open>(base, idx)\<close> is the split of the tag.
\<close>

theorem completeness_up_to_bits:
  assumes "extract_mappings inp = Inr out" and "t \<in> set (col45 inp)"
  shows "(\<exists>rec \<in> set out. Col45 rec = t) \<or>
         (\<exists>rec \<in> set out. Instruction rec = OTE \<and>
            (\<exists>b < 32. Col45 rec =
               bit_fmt (fst (split_index t)) (int (snd (split_index t))) (int b)))"
proof -
  from assms(1) obtain st1 where s: "scan_phase inp = Inr st1"
    and o: "set out =
           set (records st1) \<union>
           (\<Union>t \<in> {t \<in> set (col45 inp). t \<notin> found_original_tags st1}.
               set (sweep_rows (build_tables (tags inp)) st1 t)) \<union>
           not_found_record (build_tables (tags inp)) `
             {t \<in> set (col45 inp). t \<notin> found_original_tags st1 \<and>
                sweep_rows (build_tables (tags inp)) st1 t = []}"
    by (rule set_out)
  show ?thesis
  proof (cases "t \<in> found_original_tags st1")
    case True
    then obtain rec where "rec \<in> set (records st1)" "Col45 rec = t"
      using scan_phase_rows(2) [OF s] by auto
    then show ?thesis using o by blast
  next
    case False
    show ?thesis
    proof (cases "sweep_rows (build_tables (tags inp)) st1 t")
      case Nil
      with False assms(2) have "not_found_record (build_tables (tags inp)) t \<in> set out"
        using o by blast
      then show ?thesis using not_found_record_fields(1) by blast
    next
      case (Cons rec rest)
      then have m: "rec \<in> set (sweep_rows (build_tables (tags inp)) st1 t)" by simp
      with False assms(2) have i: "rec \<in> set out" using o by blast
      from m obtain b where "b < bit_count (get_or_empty (dtype_map (build_tables (tags inp))) (fst (split_index t)))"
        and "Col45 rec = bit_fmt (fst (split_index t)) (int (snd (split_index t))) (int b)"
        and "Instruction rec = OTE"
        by (rule sweep_rows_member)
      moreover from this have "b < 32"
        using bit_count_le [of "get_or_empty (dtype_map (build_tables (tags inp))) (fst (split_index t))"]
        by simp
      ultimately show ?thesis using i by blast
    qed
  qed
qed

theorem completeness_up_to_bits_witness:
  "extract_mappings ex_bit = Inr [ote_row ''B[0].5'' ''INT'' ''0''] \<and>
   Instruction (ote_row ''B[0].5'' ''INT'' ''0'') = OTE \<and>
   Col45 (ote_row ''B[0].5'' ''INT'' ''0'') =
     bit_fmt (fst (split_index ''B[0]'')) (int (snd (split_index ''B[0]''))) 5"
proof -
  have h: "extract_mappings ex_bit = Inr [ote_row ''B[0].5'' ''INT'' ''0'']"
    by code_simp
  have m: "''B[0]'' \<in> set (col45 ex_bit)" by (simp add: ex_bit_def)
  have c: "Col45 (ote_row ''B[0].5'' ''INT'' ''0'') =
     bit_fmt (fst (split_index ''B[0]'')) (int (snd (split_index ''B[0]''))) 5"
    by code_simp
  from completeness_up_to_bits [OF h m] show ?thesis
    using h c by (simp add: ote_row_def)
qed

theorem completeness_counterexample:
  "''B[0]'' \<in> set (col45 ex_bit) \<and>
   extract_mappings ex_bit = Inr [ote_row ''B[0].5'' ''INT'' ''0''] \<and>
   Col45 (ote_row ''B[0].5'' ''INT'' ''0'') \<noteq> ''B[0]''"
proof -
  have "extract_mappings ex_bit = Inr [ote_row ''B[0].5'' ''INT'' ''0'']"
    by code_simp
  then show ?thesis by (simp add: ex_bit_def ote_row_def)
qed

text \<open>
  C2, as amended. A row of a kind other than \<open>OTE\<close> has a monitored destination; the
  destination of a row of kind \<open>OTE\<close> is a bit \<open>base[idx].b\<close> of a monitored tag whose
  split is \<open>(base, idx)\<close>.
\<close>

theorem destinations_monitored_or_bits:
  assumes "extract_mappings inp = Inr out" and "rec \<in> set out"
  shows "(Instruction rec \<noteq> OTE \<longrightarrow> Col45 rec \<in> set (col45 inp)) \<and>
         (Instruction rec = OTE \<longrightarrow>
            (\<exists>t \<in> set (col45 inp). \<exists>b < 32. Col45 rec =
               bit_fmt (fst (split_index t)) (int (snd (split_index t))) (int b)))"
proof -
  from assms(1) obtain st1 where s: "scan_phase inp = Inr st1"
    and o: "set out =
           set (records st1) \<union>
           (\<Union>t \<in> {t \<in> set (col45 inp). t \<notin> found_original_tags st1}.
               set (sweep_rows (build_tables (tags inp)) st1 t)) \<union>
           not_found_record (build_tables (tags inp)) `
             {t \<in> set (col45 inp). t \<notin> found_original_tags st1 \<and>
                sweep_rows (build_tables (tags inp)) st1 t = []}"
    by (rule set_out)
  from assms(2) o consider
      (scan) "rec \<in> set (records st1)"
    | (sweep) t where "t \<in> set (col45 inp)" "rec \<in> set (sweep_rows (build_tables (tags inp)) st1 t)"
    | (unresolved) t where "t \<in> set (col45 inp)" "rec = not_found_record (build_tables (tags inp)) t"
    by blast
  then show ?thesis
  proof cases
    case scan
    then obtain r where "rec \<in> set (rung_rows (set (col45 inp)) (build_tables (tags inp)) r)"
      using scan_phase_member [OF s] by blast
    then show ?thesis
      using rung_rows_monitored Instruction_rung_rows by blast
  next
    case sweep
    from sweep(2) obtain b where "b < bit_count (get_or_empty (dtype_map (build_tables (tags inp))) (fst (split_index t)))"
      and c: "Col45 rec = bit_fmt (fst (split_index t)) (int (snd (split_index t))) (int b)"
      and i: "Instruction rec = OTE"
      by (rule sweep_rows_member)
    moreover from this have "b < 32"
      using bit_count_le [of "get_or_empty (dtype_map (build_tables (tags inp))) (fst (split_index t))"]
      by simp
    ultimately show ?thesis using sweep(1) by blast
  next
    case unresolved
    then show ?thesis by (simp add: not_found_record_fields)
  qed
qed

theorem destinations_monitored_or_bits_witness:
  "extract_mappings ex_dint = Inr [not_found_row ''Flag'', ote_row ''W[0].31'' ''DINT'' ''4''] \<and>
   Col45 (not_found_row ''Flag'') \<in> set (col45 ex_dint) \<and>
   Col45 (ote_row ''W[0].31'' ''DINT'' ''4'') =
     bit_fmt (fst (split_index ''W'')) (int (snd (split_index ''W''))) 31"
proof -
  have h: "extract_mappings ex_dint =
     Inr [not_found_row ''Flag'', ote_row ''W[0].31'' ''DINT'' ''4'']"
    by code_simp
  have c: "Col45 (ote_row ''W[0].31'' ''DINT'' ''4'') =
     bit_fmt (fst (split_index ''W'')) (int (snd (split_index ''W''))) 31"
    by code_simp
  have "not_found_row ''Flag'' \<in> set [not_found_row ''Flag'', ote_row ''W[0].31'' ''DINT'' ''4'']"
    by simp
  from destinations_monitored_or_bits [OF h this] show ?thesis
    using h c by (simp add: not_found_row_def ex_dint_def)
qed

theorem no_phantom_destinations_counterexample:
  "extract_mappings ex_dint = Inr [not_found_row ''Flag'', ote_row ''W[0].31'' ''DINT'' ''4''] \<and>
   Col45 (ote_row ''W[0].31'' ''DINT'' ''4'') \<notin> set (col45 ex_dint)"
proof -
  have "extract_mappings ex_dint =
     Inr [not_found_row ''Flag'', ote_row ''W[0].31'' ''DINT'' ''4'']"
    by code_simp
  then show ?thesis by (simp add: ex_dint_def ote_row_def)
qed

section \<open>Block copy and queue load\<close>

lemma rung_rows_in_out:
  assumes "extract_mappings inp = Inr out" and "r \<in> set (rungs inp)"
    and "rec \<in> set (rung_rows (set (col45 inp)) (build_tables (tags inp)) r)"
  shows "rec \<in> set out"
proof -
  from assms(1) obtain st1 where s: "scan_phase inp = Inr st1"
    and o: "set out =
           set (records st1) \<union>
           (\<Union>t \<in> {t \<in> set (col45 inp). t \<notin> found_original_tags st1}.
               set (sweep_rows (build_tables (tags inp)) st1 t)) \<union>
           not_found_record (build_tables (tags inp)) `
             {t \<in> set (col45 inp). t \<notin> found_original_tags st1 \<and>
                sweep_rows (build_tables (tags inp)) st1 t = []}"
    by (rule set_out)
  have "rec \<in> set (records st1)"
    using scan_phase_member [OF s] assms(2,3) by blast
  then show ?thesis using o by blast
qed


lemma ffl_rows_in_rung_rows:
  "m \<in> set (ffl_matches r) \<Longrightarrow> rec \<in> set (ffl_rows S tb r m) \<Longrightarrow> rec \<in> set (rung_rows S tb r)"
  by (auto simp: rung_rows_def)



text \<open>
  C4, as amended. For a match of the FIFO-load pattern whose control tag has the length
  \<open>N\<close>, and every \<open>k < N\<close> with the \<open>k\<close>-th destination element monitored, the final table
  has a row for that element whose source is the source operand as it is written. No
  row of kind \<open>FFL\<close> has another source than the operand of some match.
\<close>

theorem ffl_source_verbatim:
  assumes "extract_mappings inp = Inr out"
    and "r \<in> set (rungs inp)"
    and "(src_full, dst_full, ctl_full) \<in> set (ffl_matches r)"
    and "control_len_map (build_tables (tags inp)) (strip_index ctl_full) = Some N"
    and "split_index dst_full = (D, b)"
  shows "(\<forall>k. int k < N \<longrightarrow> tag_fmt D (int (b + k)) \<in> set (col45 inp) \<longrightarrow>
            (\<exists>rec \<in> set out.
               Col45 rec = tag_fmt D (int (b + k)) \<and> Source rec = src_full \<and>
               Instruction rec = FFL \<and>
               Program rec = prog_name r \<and> Routine rec = rout_name r \<and>
               Rung rec = rung_num r)) \<and>
         (\<forall>rec \<in> set out. Instruction rec = FFL \<longrightarrow>
            (\<exists>r' \<in> set (rungs inp). \<exists>m \<in> set (ffl_matches r'). Source rec = fst m))"
proof (intro conjI allI impI ballI)
  fix k
  assume k: "int k < N" and mon: "tag_fmt D (int (b + k)) \<in> set (col45 inp)"
  define m where "m = (src_full, dst_full, ctl_full)"
  define rec where "rec = ffl_record (build_tables (tags inp)) r m k"
  have "ffl_dst m k \<in> set (col45 inp)"
    using mon assms(5) by (simp add: ffl_dst_def m_def)
  moreover have "k < nat N" using k by simp
  ultimately have "rec \<in> set (ffl_rows (set (col45 inp)) (build_tables (tags inp)) r m)"
    using assms(4) by (simp add: ffl_rows_def ffl_length_def rec_def m_def)
  with assms(3) have "rec \<in> set (rung_rows (set (col45 inp)) (build_tables (tags inp)) r)"
    unfolding m_def [symmetric] by (rule ffl_rows_in_rung_rows)
  with assms(1,2) have "rec \<in> set out" by (rule rung_rows_in_out)
  moreover have "Col45 rec = tag_fmt D (int (b + k)) \<and> Source rec = src_full \<and>
               Instruction rec = FFL \<and>
               Program rec = prog_name r \<and> Routine rec = rout_name r \<and>
               Rung rec = rung_num r"
    using assms(5) by (simp add: rec_def ffl_record_def m_def)
  ultimately show "\<exists>rec \<in> set out.
               Col45 rec = tag_fmt D (int (b + k)) \<and> Source rec = src_full \<and>
               Instruction rec = FFL \<and>
               Program rec = prog_name r \<and> Routine rec = rout_name r \<and>
               Rung rec = rung_num r"
    by blast
next
  fix rec
  assume i: "rec \<in> set out" and f: "Instruction rec = FFL"
  from assms(1) obtain st1 where s: "scan_phase inp = Inr st1"
    and o: "set out =
           set (records st1) \<union>
           (\<Union>t \<in> {t \<in> set (col45 inp). t \<notin> found_original_tags st1}.
               set (sweep_rows (build_tables (tags inp)) st1 t)) \<union>
           not_found_record (build_tables (tags inp)) `
             {t \<in> set (col45 inp). t \<notin> found_original_tags st1 \<and>
                sweep_rows (build_tables (tags inp)) st1 t = []}"
    by (rule set_out)
  from i o consider
      (scan) "rec \<in> set (records st1)"
    | (sweep) t where "rec \<in> set (sweep_rows (build_tables (tags inp)) st1 t)"
    | (unresolved) t where "rec = not_found_record (build_tables (tags inp)) t"
    by blast
  then show "\<exists>r' \<in> set (rungs inp). \<exists>m \<in> set (ffl_matches r'). Source rec = fst m"
  proof cases
    case scan
    then obtain r' where r': "r' \<in> set (rungs inp)"
      and rr: "rec \<in> set (rung_rows (set (col45 inp)) (build_tables (tags inp)) r')"
      using scan_phase_member [OF s] by blast
    from rr show ?thesis
    proof (rule rung_rows_cases)
      fix m assume "m \<in> set (cop_matches r')"
        "rec \<in> set (cop_rows (set (col45 inp)) (build_tables (tags inp)) r' m)"
      then show ?thesis using f Instruction_cop_rows by fastforce
    next
      fix m assume "m \<in> set (mov_matches r')"
        "rec \<in> set (mov_rows (set (col45 inp)) (build_tables (tags inp)) r' m)"
      then show ?thesis using f Instruction_mov_rows by fastforce
    next
      fix m assume mm: "m \<in> set (ffl_matches r')"
        and "rec \<in> set (ffl_rows (set (col45 inp)) (build_tables (tags inp)) r' m)"
      then have "Source rec = fst m"
        by (auto simp: ffl_rows_def ffl_record_def split: option.splits prod.splits)
      with r' mm show ?thesis by blast
    next
      fix mp assume "mp \<in> set (message_elems r')"
        "rec \<in> set (msg_rows (set (col45 inp)) (build_tables (tags inp)) r' mp)"
      then show ?thesis using f Instruction_msg_rows by fastforce
    qed
  next
    case sweep
    then have "Instruction rec = OTE" by (rule sweep_rows_member)
    with f show ?thesis by simp
  next
    case unresolved
    with f show ?thesis by (simp add: not_found_record_fields)
  qed
qed

theorem ffl_source_verbatim_witness:
  "extract_mappings ex_ffl = Inr [ffl_row ''Q[1]'' ''S[2]''] \<and>
   control_len_map (build_tables (tags ex_ffl)) (strip_index ''CTL'') = Some 2 \<and>
   split_index ''Q[0]'' = (''Q'', 0) \<and> tag_fmt ''Q'' (int (0 + 1)) = ''Q[1]'' \<and>
   ''Q[1]'' \<in> set (col45 ex_ffl)"
proof -
  have h: "extract_mappings ex_ffl = Inr [ffl_row ''Q[1]'' ''S[2]'']"
    by code_simp
  have r: "rung0\<lparr>ffl_matches := [(''S[2]'', ''Q[0]'', ''CTL'')]\<rparr> \<in> set (rungs ex_ffl)"
    by (simp add: ex_ffl_def)
  have m: "(''S[2]'', ''Q[0]'', ''CTL'') \<in>
           set (ffl_matches (rung0\<lparr>ffl_matches := [(''S[2]'', ''Q[0]'', ''CTL'')]\<rparr>))"
    by simp
  have l: "control_len_map (build_tables (tags ex_ffl)) (strip_index ''CTL'') = Some 2"
    by code_simp
  have d: "split_index ''Q[0]'' = (''Q'', 0)" by code_simp
  have f: "tag_fmt ''Q'' (int (0 + 1)) = ''Q[1]''" by code_simp
  from ffl_source_verbatim [OF h r m l d] show ?thesis
    using h l d f by (simp add: ex_ffl_def)
qed

theorem ffl_source_expanded_counterexample:
  "extract_mappings ex_ffl = Inr [ffl_row ''Q[1]'' ''S[2]''] \<and>
   split_index ''S[2]'' = (''S'', 2) \<and>
   Source (ffl_row ''Q[1]'' ''S[2]'') \<noteq> tag_fmt ''S'' (2 + 1)"
proof -
  have "extract_mappings ex_ffl = Inr [ffl_row ''Q[1]'' ''S[2]'']" by code_simp
  moreover have "split_index ''S[2]'' = (''S'', 2)" by code_simp
  moreover have "tag_fmt ''S'' (2 + 1) = ''S[3]''" by code_simp
  ultimately show ?thesis by (simp add: ffl_row_def)
qed

section \<open>A queue load without a length\<close>

lemma control_len_add_comment:
  "control_len_map (add_comment n tb c) = control_len_map tb"
  by (simp add: add_comment_def split: prod.splits)

lemma control_len_foldl_add_comment:
  "control_len_map (foldl (add_comment n) tb cs) = control_len_map tb"
proof (induction cs arbitrary: tb)
  case Nil
  show ?case by simp
next
  case (Cons c cs)
  have "control_len_map (foldl (add_comment n) (add_comment n tb c) cs) =
        control_len_map (add_comment n tb c)"
    by (rule Cons.IH)
  then show ?case by (simp only: foldl_Cons control_len_add_comment)
qed

lemma control_len_set_control_len:
  "\<not> (base_name = c \<and> (case tag_len t of None \<Rightarrow> False | Some None \<Rightarrow> False
                          | Some (Some v) \<Rightarrow> py_int v \<noteq> None)) \<Longrightarrow>
   control_len_map (set_control_len base_name t tb) c = control_len_map tb c"
  by (auto simp: set_control_len_def split: option.splits)

lemma control_len_index_tag:
  assumes "\<not> (tag_name t = Some c \<and> len_resolvable t)"
  shows "control_len_map (index_tag tb t) c = control_len_map tb c"
proof (cases "tag_name t")
  case None
  then show ?thesis by (simp add: index_tag_def)
next
  case (Some base_name)
  show ?thesis
  proof (cases "base_name = []")
    case True
    with Some show ?thesis by (simp add: index_tag_def)
  next
    case named: False
    show ?thesis
    proof (cases "tag_dtype t = ''CONTROL''")
      case True
      with assms Some named
      have "\<not> (base_name = c \<and> (case tag_len t of None \<Rightarrow> False | Some None \<Rightarrow> False
                          | Some (Some v) \<Rightarrow> py_int v \<noteq> None))"
        by (simp add: len_resolvable_def)
      then show ?thesis
        using Some True named
        by (simp add: index_tag_def Let_def control_len_set_control_len
                      control_len_foldl_add_comment split: option.splits)
    next
      case False
      then show ?thesis
        using Some named
        by (simp add: index_tag_def Let_def control_len_foldl_add_comment split: option.splits)
    qed
  qed
qed

lemma control_len_foldl_index_tag:
  "\<forall>t \<in> set ts. tag_name t = Some c \<longrightarrow> \<not> len_resolvable t \<Longrightarrow>
   control_len_map (foldl index_tag tb ts) c = control_len_map tb c"
proof (induction ts arbitrary: tb)
  case Nil
  show ?case by simp
next
  case (Cons t ts)
  have "control_len_map (foldl index_tag (index_tag tb t) ts) c =
        control_len_map (index_tag tb t) c"
    using Cons.prems by (intro Cons.IH) simp
  moreover have "control_len_map (index_tag tb t) c = control_len_map tb c"
    using Cons.prems by (intro control_len_index_tag) simp
  ultimately show ?case by (simp only: foldl_Cons)
qed

lemma control_len_unresolved:
  "\<forall>t \<in> set ts. tag_name t = Some c \<longrightarrow> \<not> len_resolvable t \<Longrightarrow>
   control_len_map (build_tables ts) c = None"
  by (simp add: build_tables_def control_len_foldl_index_tag empty_tables_def)

lemma scan_ffl_unknown: "ffl_length tb m = None \<Longrightarrow> scan_ffl S tb r st m = st"
  by (simp add: scan_ffl_def)

lemma foldl_skip:
  "(\<And>s. f s x = s) \<Longrightarrow> foldl f st (xs @ x # ys) = foldl f st (xs @ ys)"
  by simp

lemma record_ffl_matches_upd:
  "cop_record tb (r\<lparr>ffl_matches := ms\<rparr>) m k = cop_record tb r m k"
  "mov_record tb (r\<lparr>ffl_matches := ms\<rparr>) m' = mov_record tb r m'"
  "ffl_record tb (r\<lparr>ffl_matches := ms\<rparr>) m'' k = ffl_record tb r m'' k"
  "msg_record tb (r\<lparr>ffl_matches := ms\<rparr>) le re li k = msg_record tb r le re li k"
  by (simp_all add: cop_record_def mov_record_def ffl_record_def msg_record_def)

lemma scan_family_ffl_matches_upd:
  "scan_cop S tb (r\<lparr>ffl_matches := ms\<rparr>) = scan_cop S tb r"
  "scan_mov S tb (r\<lparr>ffl_matches := ms\<rparr>) = scan_mov S tb r"
  "scan_ffl S tb (r\<lparr>ffl_matches := ms\<rparr>) = scan_ffl S tb r"
  "scan_message S tb (r\<lparr>ffl_matches := ms\<rparr>) = scan_message S tb r"
  by (simp_all add: fun_eq_iff scan_cop_def scan_mov_def scan_ffl_def scan_message_def
                    record_ffl_matches_upd cong: if_cong option.case_cong)

lemma scan_messages_ffl_matches_upd:
  "scan_messages S tb (r\<lparr>ffl_matches := ms\<rparr>) st mps = scan_messages S tb r st mps"
proof (induction mps arbitrary: st)
  case Nil
  show ?case by simp
next
  case (Cons mp mps)
  show ?case
    by (cases "scan_message S tb r st mp") (simp_all add: scan_family_ffl_matches_upd Cons.IH)
qed

lemma scan_rung_ffl_matches:
  "scan_rung S tb st (r\<lparr>ffl_matches := ms\<rparr>) =
     scan_messages S tb r
       (foldl (scan_ffl S tb r)
          (foldl (scan_mov S tb r)
             (foldl (scan_cop S tb r)
                (foldl note_comment (foldl (track_coil (occurrence_of r)) st (ote_matches r))
                   (operand_elems r))
                (cop_matches r))
             (mov_matches r))
          ms)
       (message_elems r)"
  by (simp add: scan_rung_def Let_def scan_family_ffl_matches_upd scan_messages_ffl_matches_upd
                occurrence_of_def)

lemma scan_rungs_cong_one:
  "(\<And>st. scan_rung S tb st r = scan_rung S tb st r') \<Longrightarrow>
   scan_rungs S tb st (rs1 @ r # rs2) = scan_rungs S tb st (rs1 @ r' # rs2)"
  by (induction rs1 arbitrary: st) (simp_all split: sum.splits)


lemma phases_rungs_upd:
  "sweep_phase (inp\<lparr>rungs := rs\<rparr>) = sweep_phase inp"
  "report_phase (inp\<lparr>rungs := rs\<rparr>) = report_phase inp"
  by (simp_all add: fun_eq_iff sweep_phase_def report_phase_def tags_sorted_def)

text \<open>
  C5. When no declaration of the control tag of a FIFO-load match gives a length (the
  \<open>LEN\<close> member or its value is absent, or the value is not an integer), the match
  leaves the state as it is: it appends no row. The run with the match has the same
  result, rows or error, as the run without it.
\<close>

theorem ffl_unknown_length_no_rows:
  assumes "\<forall>t \<in> set (tags inp). tag_name t = Some (strip_index ctl_full) \<longrightarrow> \<not> len_resolvable t"
  shows "scan_ffl S (build_tables (tags inp)) r st (src_full, dst_full, ctl_full) = st \<and>
         extract_mappings
           (inp\<lparr>rungs := rs1 @ r\<lparr>ffl_matches := ms1 @ (src_full, dst_full, ctl_full) # ms2\<rparr> # rs2\<rparr>) =
         extract_mappings (inp\<lparr>rungs := rs1 @ r\<lparr>ffl_matches := ms1 @ ms2\<rparr> # rs2\<rparr>)"
proof -
  define tb where "tb = build_tables (tags inp)"
  define m where "m = (src_full, dst_full, ctl_full)"
  have "control_len_map tb (strip_index ctl_full) = None"
    unfolding tb_def using assms by (rule control_len_unresolved)
  then have n: "ffl_length tb m = None" by (simp add: ffl_length_def m_def)
  have skip: "\<And>T s. scan_ffl T tb r s m = s"
    using n by (rule scan_ffl_unknown)
  have rung: "\<And>T s. scan_rung T tb s (r\<lparr>ffl_matches := ms1 @ m # ms2\<rparr>) =
                     scan_rung T tb s (r\<lparr>ffl_matches := ms1 @ ms2\<rparr>)"
  proof -
    fix T s
    have "\<And>s0. foldl (scan_ffl T tb r) s0 (ms1 @ m # ms2) = foldl (scan_ffl T tb r) s0 (ms1 @ ms2)"
      by (rule foldl_skip) (rule skip)
    then show "scan_rung T tb s (r\<lparr>ffl_matches := ms1 @ m # ms2\<rparr>) =
               scan_rung T tb s (r\<lparr>ffl_matches := ms1 @ ms2\<rparr>)"
      by (simp only: scan_rung_ffl_matches)
  qed
  have rungs: "\<And>T s. scan_rungs T tb s (rs1 @ r\<lparr>ffl_matches := ms1 @ m # ms2\<rparr> # rs2) =
                     scan_rungs T tb s (rs1 @ r\<lparr>ffl_matches := ms1 @ ms2\<rparr> # rs2)"
    by (rule scan_rungs_cong_one) (rule rung)
  have "scan_phase (inp\<lparr>rungs := rs1 @ r\<lparr>ffl_matches := ms1 @ m # ms2\<rparr> # rs2\<rparr>) =
        scan_phase (inp\<lparr>rungs := rs1 @ r\<lparr>ffl_matches := ms1 @ ms2\<rparr> # rs2\<rparr>)"
    by (simp add: scan_phase_def rungs [unfolded tb_def])
  then have "extract_mappings (inp\<lparr>rungs := rs1 @ r\<lparr>ffl_matches := ms1 @ m # ms2\<rparr> # rs2\<rparr>) =
        extract_mappings (inp\<lparr>rungs := rs1 @ r\<lparr>ffl_matches := ms1 @ ms2\<rparr> # rs2\<rparr>)"
    by (simp add: extract_mappings_def collect_records_def phases_rungs_upd
             cong: sum.case_cong)
  with skip [of S st] show ?thesis by (simp add: tb_def m_def)
qed

theorem ffl_unknown_length_no_rows_witness:
  "extract_mappings
     (ex_ffl_unknown\<lparr>rungs := [rung0\<lparr>ffl_matches := [(''S[2]'', ''Q[0]'', ''CTL'')]\<rparr>]\<rparr>) =
     Inr [not_found_row ''Q[1]''] \<and>
   \<not> len_resolvable (control_tag ''CTL'' ''two'') \<and>
   \<not> len_resolvable (control_tag ''CTL'' [CHR ''2'', CHR 0x1F])"
proof -
  have l': "\<not> len_resolvable (control_tag ''CTL'' [CHR ''2'', CHR 0x1F])" by code_simp
  have l: "\<not> len_resolvable (control_tag ''CTL'' ''two'')" by code_simp
  then have a: "\<forall>t \<in> set (tags ex_ffl_unknown).
                  tag_name t = Some (strip_index ''CTL'') \<longrightarrow> \<not> len_resolvable t"
    by (simp add: ex_ffl_unknown_def)
  have e: "extract_mappings (ex_ffl_unknown\<lparr>rungs := [rung0\<lparr>ffl_matches := []\<rparr>]\<rparr>) =
           Inr [not_found_row ''Q[1]'']"
    by code_simp
  from ffl_unknown_length_no_rows [OF a, where src_full = "''S[2]''" and dst_full = "''Q[0]''"
         and r = rung0 and ?rs1.0 = "[]" and ?rs2.0 = "[]" and ?ms1.0 = "[]" and ?ms2.0 = "[]"]
  show ?thesis using e l l' by simp
qed

section \<open>The bit sweep\<close>

lemma coil_occurrences_Cons:
  "coil_occurrences (r # rs) operand =
     map (\<lambda>m. occurrence_of r) (filter (\<lambda>m. m = operand) (rung_coils r)) @
     coil_occurrences rs operand"
  by (simp add: coil_occurrences_def)

lemma coil_occurrences_nonempty:
  "coil_occurrences rs operand \<noteq> [] \<longleftrightarrow> (\<exists>r \<in> set rs. operand \<in> set (rung_coils r))"
  by (induction rs) (auto simp: coil_occurrences_Cons coil_occurrences_def filter_empty_conv)

lemma hd_coil_occurrences:
  "coil_occurrences rs operand \<noteq> [] \<Longrightarrow>
   \<exists>r. find (\<lambda>r. operand \<in> set (rung_coils r)) rs = Some r \<and>
       hd (coil_occurrences rs operand) = occurrence_of r"
proof (induction rs)
  case Nil
  then show ?case by (simp add: coil_occurrences_def)
next
  case (Cons r rs)
  show ?case
  proof (cases "operand \<in> set (rung_coils r)")
    case True
    then have "filter (\<lambda>m. m = operand) (rung_coils r) \<noteq> []"
      by (auto simp: filter_empty_conv)
    then have "hd (coil_occurrences (r # rs) operand) = occurrence_of r"
      by (cases "filter (\<lambda>m. m = operand) (rung_coils r)") (simp_all add: coil_occurrences_Cons)
    with True show ?thesis by simp
  next
    case False
    then have e: "filter (\<lambda>m. m = operand) (rung_coils r) = []"
      by (auto simp: filter_empty_conv)
    then have c: "coil_occurrences (r # rs) operand = coil_occurrences rs operand"
      by (simp add: coil_occurrences_Cons)
    with Cons.prems have "coil_occurrences rs operand \<noteq> []" by simp
    from Cons.IH [OF this] show ?thesis using False c by simp
  qed
qed

lemma out_cases:
  assumes "extract_mappings inp = Inr out" and "rec \<in> set out"
  obtains (scan) r where "r \<in> set (rungs inp)"
      and "rec \<in> set (rung_rows (set (col45 inp)) (build_tables (tags inp)) r)"
  | (sweep) st1 t where "scan_phase inp = Inr st1" and "t \<in> set (col45 inp)"
      and "t \<notin> found_original_tags st1"
      and "rec \<in> set (sweep_rows (build_tables (tags inp)) st1 t)"
  | (unresolved) st1 t where "scan_phase inp = Inr st1" and "t \<in> set (col45 inp)"
      and "t \<notin> found_original_tags st1"
      and "sweep_rows (build_tables (tags inp)) st1 t = []"
      and "rec = not_found_record (build_tables (tags inp)) t"
proof -
  from assms(1) obtain st1 where s: "scan_phase inp = Inr st1"
    and o: "set out =
           set (records st1) \<union>
           (\<Union>t \<in> {t \<in> set (col45 inp). t \<notin> found_original_tags st1}.
               set (sweep_rows (build_tables (tags inp)) st1 t)) \<union>
           not_found_record (build_tables (tags inp)) `
             {t \<in> set (col45 inp). t \<notin> found_original_tags st1 \<and>
                sweep_rows (build_tables (tags inp)) st1 t = []}"
    by (rule set_out)
  from assms(2) o consider
      "rec \<in> set (records st1)"
    | t where "t \<in> set (col45 inp)" "t \<notin> found_original_tags st1"
        "rec \<in> set (sweep_rows (build_tables (tags inp)) st1 t)"
    | t where "t \<in> set (col45 inp)" "t \<notin> found_original_tags st1"
        "sweep_rows (build_tables (tags inp)) st1 t = []"
        "rec = not_found_record (build_tables (tags inp)) t"
    by blast
  then show ?thesis
  proof cases
    case 1
    then obtain r where "r \<in> set (rungs inp)"
      "rec \<in> set (rung_rows (set (col45 inp)) (build_tables (tags inp)) r)"
      using scan_phase_member [OF s] by blast
    then show ?thesis by (rule scan)
  next
    case 2
    with s show ?thesis using sweep by blast
  next
    case 3
    with s show ?thesis using unresolved by blast
  qed
qed

lemma ote_row_origin:
  assumes "extract_mappings inp = Inr out" and "rec \<in> set out" and "Instruction rec = OTE"
  obtains st1 t where "scan_phase inp = Inr st1" and "t \<in> set (col45 inp)"
    and "rec \<in> set (sweep_rows (build_tables (tags inp)) st1 t)"
  using assms(1,2)
proof (cases rule: out_cases)
  case (scan r)
  then show ?thesis using assms(3) Instruction_rung_rows by blast
next
  case (sweep st1 t)
  then show ?thesis using that by blast
next
  case (unresolved st1 t)
  then show ?thesis using assms(3) by (simp add: not_found_record_fields)
qed

text \<open>
  C7. A row of kind \<open>OTE\<close> in the final table has the program, routine and rung of the
  first rung, in the order of the scan, whose text has a coil on the destination of the
  row, and an empty source. The table of occurrences holds, for every operand, all its
  occurrences in the order of the scan; only the first is read.
\<close>

theorem bit_row_first_occurrence:
  assumes "extract_mappings inp = Inr out" and "rec \<in> set out" and "Instruction rec = OTE"
  shows "(\<exists>r. find (\<lambda>r. Col45 rec \<in> set (rung_coils r)) (rungs inp) = Some r \<and>
              Program rec = prog_name r \<and> Routine rec = rout_name r \<and>
              Rung rec = rung_num r) \<and>
         Source rec = [] \<and>
         (\<forall>st1 operand. scan_phase inp = Inr st1 \<longrightarrow>
            occs (ote_map st1 operand) = coil_occurrences (rungs inp) operand)"
proof -
  from assms obtain st1 t where s: "scan_phase inp = Inr st1"
    and m: "rec \<in> set (sweep_rows (build_tables (tags inp)) st1 t)"
    by (rule ote_row_origin)
  have "occs (ote_map st1 (Col45 rec)) \<noteq> [] \<and>
        (Program rec, Routine rec, Rung rec) = hd (occs (ote_map st1 (Col45 rec))) \<and>
        Source rec = []"
    using m by (rule sweep_rows_member) simp
  then have ne: "occs (ote_map st1 (Col45 rec)) \<noteq> []"
    and h: "(Program rec, Routine rec, Rung rec) = hd (occs (ote_map st1 (Col45 rec)))"
    and src: "Source rec = []"
    by simp_all
  have o: "occs (ote_map st1 (Col45 rec)) = coil_occurrences (rungs inp) (Col45 rec)"
    by (rule scan_phase_rows(3) [OF s])
  from ne o have "coil_occurrences (rungs inp) (Col45 rec) \<noteq> []" by simp
  then obtain r where f: "find (\<lambda>r. Col45 rec \<in> set (rung_coils r)) (rungs inp) = Some r"
    and hd: "hd (coil_occurrences (rungs inp) (Col45 rec)) = occurrence_of r"
    using hd_coil_occurrences by blast
  from h o hd have "Program rec = prog_name r \<and> Routine rec = rout_name r \<and>
              Rung rec = rung_num r"
    by (simp add: occurrence_of_def)
  with f have "\<exists>r. find (\<lambda>r. Col45 rec \<in> set (rung_coils r)) (rungs inp) = Some r \<and>
              Program rec = prog_name r \<and> Routine rec = rout_name r \<and>
              Rung rec = rung_num r"
    by blast
  moreover have "\<forall>st1 operand. scan_phase inp = Inr st1 \<longrightarrow>
            occs (ote_map st1 operand) = coil_occurrences (rungs inp) operand"
    using scan_phase_rows(3) by blast
  ultimately show ?thesis using src by blast
qed

theorem bit_row_first_occurrence_witness:
  "extract_mappings ex_dint = Inr [not_found_row ''Flag'', ote_row ''W[0].31'' ''DINT'' ''4''] \<and>
   find (\<lambda>r. ''W[0].31'' \<in> set (rung_coils r)) (rungs ex_dint) =
     Some (rung0\<lparr>rung_num := Some ''4'', ote_matches := [''W[0].31'']\<rparr>) \<and>
   coil_occurrences (rungs ex_dint) ''W[0].31'' =
     [(Some ''P'', Some ''R'', Some ''4''), (Some ''P'', Some ''R'', Some ''7'')] \<and>
   Rung (ote_row ''W[0].31'' ''DINT'' ''4'') = Some ''4''"
proof -
  have h: "extract_mappings ex_dint =
     Inr [not_found_row ''Flag'', ote_row ''W[0].31'' ''DINT'' ''4'']"
    by code_simp
  have m: "ote_row ''W[0].31'' ''DINT'' ''4'' \<in>
           set [not_found_row ''Flag'', ote_row ''W[0].31'' ''DINT'' ''4'']"
    by simp
  have i: "Instruction (ote_row ''W[0].31'' ''DINT'' ''4'') = OTE"
    by (simp add: ote_row_def)
  have f: "find (\<lambda>r. ''W[0].31'' \<in> set (rung_coils r)) (rungs ex_dint) =
     Some (rung0\<lparr>rung_num := Some ''4'', ote_matches := [''W[0].31'']\<rparr>)"
    by code_simp
  have c: "coil_occurrences (rungs ex_dint) ''W[0].31'' =
     [(Some ''P'', Some ''R'', Some ''4''), (Some ''P'', Some ''R'', Some ''7'')]"
    by code_simp
  from bit_row_first_occurrence [OF h m i] show ?thesis
    using h f c by (simp add: ote_row_def)
qed

lemma sweep_rows_no_coil:
  assumes "\<forall>b < bit_count (get_or_empty (dtype_map tb) (fst (split_index t))).
             occs (ote_map st (bit_fmt (fst (split_index t)) (int (snd (split_index t))) (int b))) = []"
  shows "sweep_rows tb st t = []"
proof (cases "split_index t")
  case (Pair base idx)
  with assms have "filter (\<lambda>b. occs (ote_map st (bit_fmt base (int idx) (int b))) \<noteq> [])
                     [0..<bit_count (get_or_empty (dtype_map tb) base)] = []"
    by (simp add: filter_empty_conv)
  with Pair show ?thesis by (simp add: sweep_rows_def)
qed

text \<open>
  C6, as amended. A row of kind \<open>OTE\<close> has a destination of the form \<open>base[idx].b\<close> and is
  in the final table only if the text of some rung has a coil on exactly its
  destination. A monitored tag that has no row of the rung pass and none of whose bits
  (16 for the type \<open>INT\<close>, 32 for \<open>DINT\<close>, none for another type) is driven by a coil has
  its \<open>Not Found\<close> row in the table, and no bit of it has a row of kind \<open>OTE\<close>.
\<close>

theorem bit_sweep_gating:
  assumes "extract_mappings inp = Inr out"
  shows "(\<forall>rec \<in> set out. Instruction rec = OTE \<longrightarrow>
            (\<exists>base idx b. Col45 rec = bit_fmt base (int idx) (int b)) \<and>
            (\<exists>r \<in> set (rungs inp). Col45 rec \<in> set (rung_coils r))) \<and>
         (\<forall>t \<in> set (col45 inp).
            (\<forall>rec \<in> set out. Col45 rec = t \<longrightarrow>
               Instruction rec = Not_Found \<or> Instruction rec = OTE) \<longrightarrow>
            (\<forall>b < bit_count (get_or_empty (dtype_map (build_tables (tags inp)))
                               (fst (split_index t))).
               \<forall>r \<in> set (rungs inp).
                 bit_fmt (fst (split_index t)) (int (snd (split_index t))) (int b)
                   \<notin> set (rung_coils r)) \<longrightarrow>
            not_found_record (build_tables (tags inp)) t \<in> set out \<and>
            (\<forall>rec \<in> set out.
               \<forall>b < bit_count (get_or_empty (dtype_map (build_tables (tags inp)))
                                 (fst (split_index t))).
                 Col45 rec = bit_fmt (fst (split_index t)) (int (snd (split_index t))) (int b)
                   \<longrightarrow> Instruction rec \<noteq> OTE))"
proof -
  have gating: "\<exists>r \<in> set (rungs inp). Col45 rec \<in> set (rung_coils r)"
    if "rec \<in> set out" and "Instruction rec = OTE" for rec
  proof -
    from assms that obtain st1 t where s: "scan_phase inp = Inr st1"
      and m: "rec \<in> set (sweep_rows (build_tables (tags inp)) st1 t)"
      by (rule ote_row_origin)
    have "occs (ote_map st1 (Col45 rec)) \<noteq> []"
      using m by (rule sweep_rows_member)
    then have "coil_occurrences (rungs inp) (Col45 rec) \<noteq> []"
      by (simp add: scan_phase_rows(3) [OF s])
    then show ?thesis by (simp add: coil_occurrences_nonempty)
  qed
  have unresolved: "not_found_record (build_tables (tags inp)) t \<in> set out"
    if t: "t \<in> set (col45 inp)"
      and kinds: "\<forall>rec \<in> set out. Col45 rec = t \<longrightarrow>
               Instruction rec = Not_Found \<or> Instruction rec = OTE"
      and dry: "\<forall>b < bit_count (get_or_empty (dtype_map (build_tables (tags inp)))
                               (fst (split_index t))).
               \<forall>r \<in> set (rungs inp).
                 bit_fmt (fst (split_index t)) (int (snd (split_index t))) (int b)
                   \<notin> set (rung_coils r)" for t
  proof -
    from assms obtain st1 where s: "scan_phase inp = Inr st1"
      and o: "set out =
           set (records st1) \<union>
           (\<Union>t \<in> {t \<in> set (col45 inp). t \<notin> found_original_tags st1}.
               set (sweep_rows (build_tables (tags inp)) st1 t)) \<union>
           not_found_record (build_tables (tags inp)) `
             {t \<in> set (col45 inp). t \<notin> found_original_tags st1 \<and>
                sweep_rows (build_tables (tags inp)) st1 t = []}"
      by (rule set_out)
    have nf: "t \<notin> found_original_tags st1"
    proof
      assume "t \<in> found_original_tags st1"
      then obtain rec where r: "rec \<in> set (records st1)" and c: "Col45 rec = t"
        using scan_phase_rows(2) [OF s] by auto
      from r obtain r' where "rec \<in> set (rung_rows (set (col45 inp)) (build_tables (tags inp)) r')"
        using scan_phase_member [OF s] by blast
      then have "Instruction rec \<noteq> OTE \<and> Instruction rec \<noteq> Not_Found"
        by (rule Instruction_rung_rows)
      moreover from r o have "rec \<in> set out" by simp
      ultimately show False using kinds c by auto
    qed
    have "\<forall>b < bit_count (get_or_empty (dtype_map (build_tables (tags inp))) (fst (split_index t))).
             occs (ote_map st1 (bit_fmt (fst (split_index t)) (int (snd (split_index t))) (int b))) = []"
    proof (intro allI impI)
      fix b
      assume "b < bit_count (get_or_empty (dtype_map (build_tables (tags inp))) (fst (split_index t)))"
      with dry have "\<not> (\<exists>r \<in> set (rungs inp).
          bit_fmt (fst (split_index t)) (int (snd (split_index t))) (int b) \<in> set (rung_coils r))"
        by simp
      then have "coil_occurrences (rungs inp)
                   (bit_fmt (fst (split_index t)) (int (snd (split_index t))) (int b)) = []"
        using coil_occurrences_nonempty by blast
      then show "occs (ote_map st1 (bit_fmt (fst (split_index t)) (int (snd (split_index t))) (int b))) = []"
        by (simp add: scan_phase_rows(3) [OF s])
    qed
    then have "sweep_rows (build_tables (tags inp)) st1 t = []"
      by (rule sweep_rows_no_coil)
    with t nf o show ?thesis by simp
  qed
  have none: "Instruction rec \<noteq> OTE"
    if "rec \<in> set out"
      and b: "b < bit_count (get_or_empty (dtype_map (build_tables (tags inp)))
                               (fst (split_index t)))"
      and c: "Col45 rec = bit_fmt (fst (split_index t)) (int (snd (split_index t))) (int b)"
      and dry: "\<forall>b < bit_count (get_or_empty (dtype_map (build_tables (tags inp)))
                               (fst (split_index t))).
               \<forall>r \<in> set (rungs inp).
                 bit_fmt (fst (split_index t)) (int (snd (split_index t))) (int b)
                   \<notin> set (rung_coils r)" for rec b t
  proof
    assume "Instruction rec = OTE"
    with that(1) have "\<exists>r \<in> set (rungs inp). Col45 rec \<in> set (rung_coils r)" by (rule gating)
    with b c dry show False by simp
  qed
  have form: "\<exists>base idx b. Col45 rec = bit_fmt base (int idx) (int b)"
    if "rec \<in> set out" and "Instruction rec = OTE" for rec
  proof -
    from assms that obtain st1 t where
      m: "rec \<in> set (sweep_rows (build_tables (tags inp)) st1 t)"
      by (rule ote_row_origin)
    from m obtain b where
      "Col45 rec = bit_fmt (fst (split_index t)) (int (snd (split_index t))) (int b)"
      by (rule sweep_rows_member)
    then show ?thesis by (intro exI)
  qed
  show ?thesis
  proof (intro conjI ballI impI allI)
    fix rec assume "rec \<in> set out" "Instruction rec = OTE"
    then show "\<exists>base idx b. Col45 rec = bit_fmt base (int idx) (int b)" by (rule form)
  next
    fix rec assume "rec \<in> set out" "Instruction rec = OTE"
    then show "\<exists>r \<in> set (rungs inp). Col45 rec \<in> set (rung_coils r)" by (rule gating)
  next
    fix t
    assume "t \<in> set (col45 inp)"
      "\<forall>rec \<in> set out. Col45 rec = t \<longrightarrow> Instruction rec = Not_Found \<or> Instruction rec = OTE"
      "\<forall>b < bit_count (get_or_empty (dtype_map (build_tables (tags inp))) (fst (split_index t))).
               \<forall>r \<in> set (rungs inp).
                 bit_fmt (fst (split_index t)) (int (snd (split_index t))) (int b)
                   \<notin> set (rung_coils r)"
    then show "not_found_record (build_tables (tags inp)) t \<in> set out" by (rule unresolved)
  next
    fix t rec b
    assume "rec \<in> set out"
      "b < bit_count (get_or_empty (dtype_map (build_tables (tags inp))) (fst (split_index t)))"
      "Col45 rec = bit_fmt (fst (split_index t)) (int (snd (split_index t))) (int b)"
      "\<forall>b < bit_count (get_or_empty (dtype_map (build_tables (tags inp))) (fst (split_index t))).
               \<forall>r \<in> set (rungs inp).
                 bit_fmt (fst (split_index t)) (int (snd (split_index t))) (int b)
                   \<notin> set (rung_coils r)"
    then show "Instruction rec \<noteq> OTE" by (rule none)
  qed
qed

theorem bit_sweep_gating_witness:
  "extract_mappings ex_no_coil = Inr [(not_found_row ''N[3]'')\<lparr>DataType := ''INT''\<rparr>] \<and>
   not_found_record (build_tables (tags ex_no_coil)) ''N[3]'' =
     (not_found_row ''N[3]'')\<lparr>DataType := ''INT''\<rparr> \<and>
   bit_count (get_or_empty (dtype_map (build_tables (tags ex_no_coil)))
                (fst (split_index ''N[3]''))) = 16 \<and>
   ''N[3]'' \<in> set (col45 ex_no_coil)"
proof -
  have h: "extract_mappings ex_no_coil = Inr [(not_found_row ''N[3]'')\<lparr>DataType := ''INT''\<rparr>]"
    by code_simp
  have n: "not_found_record (build_tables (tags ex_no_coil)) ''N[3]'' =
     (not_found_row ''N[3]'')\<lparr>DataType := ''INT''\<rparr>"
    by code_simp
  have c: "bit_count (get_or_empty (dtype_map (build_tables (tags ex_no_coil)))
                (fst (split_index ''N[3]''))) = 16"
    by code_simp
  have t: "''N[3]'' \<in> set (col45 ex_no_coil)" by (simp add: ex_no_coil_def)
  have k: "\<forall>rec \<in> set [(not_found_row ''N[3]'')\<lparr>DataType := ''INT''\<rparr>]. Col45 rec = ''N[3]'' \<longrightarrow>
               Instruction rec = Not_Found \<or> Instruction rec = OTE"
    by (simp add: not_found_row_def)
  have b: "fst (split_index ''N[3]'') = ''N''" by code_simp
  have r: "rung_coils (rung0\<lparr>ote_matches := [''M[3].1'']\<rparr>) = [''M[3].1'']" by code_simp
  have d: "\<forall>b < bit_count (get_or_empty (dtype_map (build_tables (tags ex_no_coil)))
                               (fst (split_index ''N[3]''))).
               \<forall>r \<in> set (rungs ex_no_coil).
                 bit_fmt (fst (split_index ''N[3]'')) (int (snd (split_index ''N[3]''))) (int b)
                   \<notin> set (rung_coils r)"
    by (simp add: ex_no_coil_def r b bit_fmt_def)
  from bit_sweep_gating [OF h] t k d
  have "not_found_record (build_tables (tags ex_no_coil)) ''N[3]'' \<in>
          set [(not_found_row ''N[3]'')\<lparr>DataType := ''INT''\<rparr>]"
    by blast
  then show ?thesis using h n c t by simp
qed

theorem bit_destination_without_coil_counterexample:
  "extract_mappings ex_bit_tag = Inr [not_found_row ''B[0].5''] \<and>
   Col45 (not_found_row ''B[0].5'') = bit_fmt ''B'' 0 5 \<and>
   rungs ex_bit_tag = []"
proof -
  have "extract_mappings ex_bit_tag = Inr [not_found_row ''B[0].5'']" by code_simp
  moreover have "bit_fmt ''B'' 0 5 = ''B[0].5''" by code_simp
  ultimately show ?thesis by (simp add: not_found_row_def ex_bit_tag_def)
qed

section \<open>The form of the destinations\<close>

lemma digit_chars: "map digit_char [0, 1, 2, 3, 4, 5, 6, 7, 8, 9] = ''0123456789''"
  by code_simp

lemma is_digit_digit_char:
  assumes "k < 10"
  shows "is_digit (digit_char k)"
proof -
  from assms have "k \<in> set [0, 1, 2, 3, 4, 5, 6, 7, 8, 9]" by auto
  then have "digit_char k \<in> digit_char ` set [0, 1, 2, 3, 4, 5, 6, 7, 8, 9]"
    by (rule imageI)
  then have "digit_char k \<in> set (map digit_char [0, 1, 2, 3, 4, 5, 6, 7, 8, 9])"
    by (simp only: set_map)
  then show ?thesis by (simp only: digit_chars is_digit_def)
qed

lemma str_nat_digits: "str_nat n \<noteq> [] \<and> (\<forall>c \<in> set (str_nat n). is_digit c)"
proof (induction n rule: str_nat.induct)
  case (1 n)
  show ?case
  proof (cases "n < 10")
    case True
    then show ?thesis
      by (subst (1 2) str_nat.simps) (simp add: is_digit_digit_char)
  next
    case False
    then have ih: "str_nat (n div 10) \<noteq> [] \<and> (\<forall>c \<in> set (str_nat (n div 10)). is_digit c)"
      by (rule "1.IH")
    have "is_digit (digit_char (n mod 10))" by (rule is_digit_digit_char) simp
    with ih False show ?thesis
      by (subst (1 2) str_nat.simps) simp
  qed
qed

lemma not_digit_bracket: "\<not> is_digit CHR ''[''" "\<not> is_digit CHR ''-''"
  by (simp_all add: is_digit_def)

lemma tag_fmt_bracketed: "\<exists>base' i'. tag_fmt base i = tag_fmt base' i'"
  by blast

lemma split_search_base:
  "split_search pre s = Some (b, ds) \<Longrightarrow> newline \<notin> set pre \<Longrightarrow> b \<noteq> [] \<and> newline \<notin> set b"
proof (induction s arbitrary: pre)
  case Nil
  then show ?case by simp
next
  case (Cons c cs)
  show ?case
  proof (cases "if pre = [] then None else index_suffix (c # cs)")
    case (Some d)
    with Cons.prems show ?thesis by (auto split: if_splits)
  next
    case None
    with Cons.prems have c: "c \<noteq> newline" and r: "split_search (pre @ [c]) cs = Some (b, ds)"
      by (auto split: if_splits)
    from Cons.IH [OF r] c Cons.prems(2) show ?thesis by simp
  qed
qed

lemma split_index_base:
  assumes "d \<noteq> []" and "newline \<notin> set d"
  shows "fst (split_index d) \<noteq> [] \<and> newline \<notin> set (fst (split_index d))"
proof (cases "split_search [] d")
  case None
  with assms show ?thesis by (simp add: split_index_def)
next
  case (Some p)
  obtain b ds where p: "p = (b, ds)" by (cases p)
  with Some have "b \<noteq> [] \<and> newline \<notin> set b"
    using split_search_base [of "[]" d b ds] by simp
  with Some p show ?thesis by (simp add: split_index_def)
qed

lemma index_suffix_str_nat:
  "index_suffix (CHR ''['' # str_nat n @ '']'') = Some (str_nat n)"
proof -
  have d: "str_nat n \<noteq> []" "\<forall>c \<in> set (str_nat n). is_digit c"
    using str_nat_digits [of n] by simp_all
  have t: "takeWhile is_digit (str_nat n @ '']'') = str_nat n"
    using d(2) by (simp add: takeWhile_append2 is_digit_def)
  have w: "dropWhile is_digit (str_nat n @ '']'') = '']''"
    using d(2) by (simp add: dropWhile_append2 is_digit_def)
  show ?thesis
    using d(1) by (simp add: index_suffix_def t w at_end_def)
qed

lemma split_search_exists:
  "pre @ u \<noteq> [] \<Longrightarrow> newline \<notin> set u \<Longrightarrow> index_suffix v \<noteq> None \<Longrightarrow>
   split_search pre (u @ v) \<noteq> None"
proof (induction u arbitrary: pre)
  case Nil
  then obtain c cs where v: "v = c # cs"
    by (cases v) (auto simp: index_suffix_def)
  with Nil show ?case by auto
next
  case (Cons a u)
  have "split_search (pre @ [a]) (u @ v) \<noteq> None"
    using Cons.prems by (intro Cons.IH) simp_all
  with Cons.prems(2) show ?case
    by (cases "if pre = [] then None else index_suffix (a # u @ v)") auto
qed

lemma has_index_suffix_tag_fmt:
  assumes "base \<noteq> []" and "newline \<notin> set base"
  shows "has_index_suffix (tag_fmt base (int n))"
proof -
  have "split_search [] (base @ (CHR ''['' # str_nat n @ '']'')) \<noteq> None"
    using assms by (intro split_search_exists) (simp_all add: index_suffix_str_nat)
  then show ?thesis
    by (simp add: has_index_suffix_def tag_fmt_def str_int_def)
qed

lemma newline_space: "py_isspace newline"
  by (simp add: py_isspace_def newline_def)

lemma operand_ok_plain: "operand_ok d \<Longrightarrow> d \<noteq> [] \<and> newline \<notin> set d"
  using newline_space by (auto simp: operand_ok_def list_all_iff)

lemma cop_rows_suffix:
  assumes "rec \<in> set (cop_rows S tb r m)" and "operand_ok (fst (snd (snd m)))"
  shows "(\<exists>base n. Col45 rec = tag_fmt base (int n)) \<and> has_index_suffix (Col45 rec)"
proof -
  obtain instr src dst len where m: "m = (instr, src, dst, len)" by (cases m)
  from assms(1) obtain k where c: "Col45 rec = cop_dst m k"
    by (auto simp: cop_rows_def Col45_cop_record)
  have f: "cop_dst m k = tag_fmt (fst (split_index dst)) (int (snd (split_index dst) + k))"
    by (simp add: cop_dst_def m split: prod.splits)
  from assms(2) m have "dst \<noteq> [] \<and> newline \<notin> set dst"
    using operand_ok_plain by simp
  then have "fst (split_index dst) \<noteq> [] \<and> newline \<notin> set (fst (split_index dst))"
    by (simp add: split_index_base)
  then have "has_index_suffix (tag_fmt (fst (split_index dst)) (int (snd (split_index dst) + k)))"
    by (intro has_index_suffix_tag_fmt) simp_all
  moreover have "\<exists>base n. Col45 rec = tag_fmt base (int n)"
    unfolding c f by (intro exI) (rule refl)
  ultimately show ?thesis by (simp only: c f) 
qed

lemma ffl_rows_suffix:
  assumes "rec \<in> set (ffl_rows S tb r m)" and "operand_ok (fst (snd m))"
  shows "(\<exists>base n. Col45 rec = tag_fmt base (int n)) \<and> has_index_suffix (Col45 rec)"
proof -
  obtain src dst ctl where m: "m = (src, dst, ctl)" by (cases m)
  from assms(1) obtain k where c: "Col45 rec = ffl_dst m k"
    by (auto simp: ffl_rows_def Col45_ffl_record split: option.splits)
  have f: "ffl_dst m k = tag_fmt (fst (split_index dst)) (int (snd (split_index dst) + k))"
    by (simp add: ffl_dst_def m split: prod.splits)
  from assms(2) m have "dst \<noteq> [] \<and> newline \<notin> set dst"
    using operand_ok_plain by simp
  then have "fst (split_index dst) \<noteq> [] \<and> newline \<notin> set (fst (split_index dst))"
    by (simp add: split_index_base)
  then have "has_index_suffix (tag_fmt (fst (split_index dst)) (int (snd (split_index dst) + k)))"
    by (intro has_index_suffix_tag_fmt) simp_all
  moreover have "\<exists>base n. Col45 rec = tag_fmt base (int n)"
    unfolding c f by (intro exI) (rule refl)
  ultimately show ?thesis by (simp only: c f) 
qed

lemma msg_dst_suffix:
  assumes "le \<noteq> []"
  shows "\<exists>base i. msg_dst le li k = tag_fmt base i \<and>
           (has_index_suffix (msg_dst le li k) \<or> i < 0 \<or> newline \<in> set base)"
proof (cases "split_search [] le")
  case None
  then have f: "msg_dst le li k = tag_fmt le (li + int k)"
    by (simp add: msg_dst_def split_or_def)
  show ?thesis
  proof (cases "li + int k < 0 \<or> newline \<in> set le")
    case True
    with f show ?thesis by blast
  next
    case False
    then have "has_index_suffix (tag_fmt le (int (nat (li + int k))))"
      using assms by (intro has_index_suffix_tag_fmt) simp_all
    with False have "has_index_suffix (tag_fmt le (li + int k))" by simp
    with f show ?thesis by auto
  qed
next
  case (Some p)
  obtain b ds where p: "p = (b, ds)" by (cases p)
  with Some have b: "b \<noteq> [] \<and> newline \<notin> set b"
    using split_search_base [of "[]" le b ds] by simp
  from Some p have f: "msg_dst le li k = tag_fmt b (int (int_of_digits ds + k))"
    by (simp add: msg_dst_def split_or_def)
  from b have "has_index_suffix (tag_fmt b (int (int_of_digits ds + k)))"
    by (intro has_index_suffix_tag_fmt) simp_all
  with f show ?thesis by auto
qed

lemma msg_rows_suffix:
  assumes "rec \<in> set (msg_rows S tb r mp)"
  shows "\<exists>base i. Col45 rec = tag_fmt base i \<and>
           (has_index_suffix (Col45 rec) \<or> i < 0 \<or> newline \<in> set base)"
proof -
  from assms obtain le li k where "le \<noteq> []" and "Col45 rec = msg_dst le li k"
    by (auto simp: msg_rows_def Col45_msg_record split: option.splits if_splits)
  then show ?thesis using msg_dst_suffix [of le li k] by simp
qed

lemma mov_rows_verbatim:
  "rec \<in> set (mov_rows S tb r m) \<Longrightarrow> Col45 rec = snd m"
  by (auto simp: mov_rows_def Col45_mov_record split: if_splits)

lemma pattern_operands_cop:
  "pattern_operands inp \<Longrightarrow> r \<in> set (rungs inp) \<Longrightarrow> m \<in> set (cop_matches r) \<Longrightarrow>
   operand_ok (fst (snd (snd m)))"
  by (auto simp: pattern_operands_def list_all_iff)

lemma pattern_operands_ffl:
  "pattern_operands inp \<Longrightarrow> r \<in> set (rungs inp) \<Longrightarrow> m \<in> set (ffl_matches r) \<Longrightarrow>
   operand_ok (fst (snd m))"
  by (auto simp: pattern_operands_def list_all_iff)

text \<open>
  C10, as amended. The operands are what the instruction patterns return. A row of kind
  \<open>COP\<close>, \<open>CPS\<close> or \<open>FFL\<close> has a destination \<open>base[n]\<close> with a natural number \<open>n\<close>, which
  carries an index suffix. A row of kind \<open>MESSAGE\<close> has a destination \<open>base[i]\<close> with an
  integer \<open>i\<close>; it carries an index suffix unless \<open>i\<close> is negative or the base has a line
  break. So a row whose destination carries no index suffix is of kind \<open>MOV\<close>, \<open>OTE\<close>
  or \<open>Not Found\<close>, or of kind \<open>MESSAGE\<close> in one of these two cases; and a row of kind
  \<open>MOV\<close> has as destination the destination operand of a match of the move pattern,
  as it is written.
\<close>

theorem expansion_destinations_bracketed:
  assumes "extract_mappings inp = Inr out" and "rec \<in> set out" and "pattern_operands inp"
  shows "(Instruction rec \<in> {COP, CPS, FFL} \<longrightarrow>
            (\<exists>base n. Col45 rec = tag_fmt base (int n)) \<and> has_index_suffix (Col45 rec)) \<and>
         (Instruction rec = MESSAGE \<longrightarrow>
            (\<exists>base i. Col45 rec = tag_fmt base i \<and>
               (has_index_suffix (Col45 rec) \<or> i < 0 \<or> newline \<in> set base))) \<and>
         (\<not> has_index_suffix (Col45 rec) \<longrightarrow>
            Instruction rec \<in> {MOV, OTE, Not_Found, MESSAGE}) \<and>
         (Instruction rec = MOV \<longrightarrow>
            (\<exists>r \<in> set (rungs inp). \<exists>m \<in> set (mov_matches r). snd m = Col45 rec))"
proof -
  have br: "(\<exists>base n. Col45 rec = tag_fmt base (int n)) \<and> has_index_suffix (Col45 rec)"
    if "Instruction rec \<in> {COP, CPS, FFL}"
    using assms(1,2)
  proof (cases rule: out_cases)
    case (scan r)
    from scan(2) show ?thesis
    proof (rule rung_rows_cases)
      fix m assume "m \<in> set (cop_matches r)"
        and "rec \<in> set (cop_rows (set (col45 inp)) (build_tables (tags inp)) r m)"
      then show ?thesis
        using pattern_operands_cop [OF assms(3) scan(1)] by (intro cop_rows_suffix) simp_all
    next
      fix m assume "rec \<in> set (mov_rows (set (col45 inp)) (build_tables (tags inp)) r m)"
      then have "Instruction rec = MOV" by (rule Instruction_mov_rows)
      with that show ?thesis by simp
    next
      fix m assume "m \<in> set (ffl_matches r)"
        and "rec \<in> set (ffl_rows (set (col45 inp)) (build_tables (tags inp)) r m)"
      then show ?thesis
        using pattern_operands_ffl [OF assms(3) scan(1)] by (intro ffl_rows_suffix) simp_all
    next
      fix mp assume "rec \<in> set (msg_rows (set (col45 inp)) (build_tables (tags inp)) r mp)"
      then have "Instruction rec = MESSAGE" by (rule Instruction_msg_rows)
      with that show ?thesis by simp
    qed
  next
    case (sweep st1 t)
    from sweep(4) have "Instruction rec = OTE" by (rule sweep_rows_member)
    with that show ?thesis by simp
  next
    case (unresolved st1 t)
    with that show ?thesis by (simp add: not_found_record_fields)
  qed
  have ms: "\<exists>base i. Col45 rec = tag_fmt base i \<and>
               (has_index_suffix (Col45 rec) \<or> i < 0 \<or> newline \<in> set base)"
    if "Instruction rec = MESSAGE"
    using assms(1,2)
  proof (cases rule: out_cases)
    case (scan r)
    from scan(2) show ?thesis
    proof (rule rung_rows_cases)
      fix m assume "rec \<in> set (cop_rows (set (col45 inp)) (build_tables (tags inp)) r m)"
      then have "Instruction rec = COP \<or> Instruction rec = CPS" by (rule Instruction_cop_rows)
      with that show ?thesis by simp
    next
      fix m assume "rec \<in> set (mov_rows (set (col45 inp)) (build_tables (tags inp)) r m)"
      then have "Instruction rec = MOV" by (rule Instruction_mov_rows)
      with that show ?thesis by simp
    next
      fix m assume "rec \<in> set (ffl_rows (set (col45 inp)) (build_tables (tags inp)) r m)"
      then have "Instruction rec = FFL" by (rule Instruction_ffl_rows)
      with that show ?thesis by simp
    next
      fix mp assume "rec \<in> set (msg_rows (set (col45 inp)) (build_tables (tags inp)) r mp)"
      then show ?thesis by (rule msg_rows_suffix)
    qed
  next
    case (sweep st1 t)
    from sweep(4) have "Instruction rec = OTE" by (rule sweep_rows_member)
    with that show ?thesis by simp
  next
    case (unresolved st1 t)
    with that show ?thesis by (simp add: not_found_record_fields)
  qed
  have mv: "\<exists>r \<in> set (rungs inp). \<exists>m \<in> set (mov_matches r). snd m = Col45 rec"
    if "Instruction rec = MOV"
    using assms(1,2)
  proof (cases rule: out_cases)
    case (scan r)
    from scan(2) have "\<exists>m \<in> set (mov_matches r). snd m = Col45 rec"
    proof (rule rung_rows_cases)
      fix m assume "rec \<in> set (cop_rows (set (col45 inp)) (build_tables (tags inp)) r m)"
      then have "Instruction rec = COP \<or> Instruction rec = CPS" by (rule Instruction_cop_rows)
      with that show ?thesis by simp
    next
      fix m assume "m \<in> set (mov_matches r)"
        and "rec \<in> set (mov_rows (set (col45 inp)) (build_tables (tags inp)) r m)"
      then show ?thesis using mov_rows_verbatim by fastforce
    next
      fix m assume "rec \<in> set (ffl_rows (set (col45 inp)) (build_tables (tags inp)) r m)"
      then have "Instruction rec = FFL" by (rule Instruction_ffl_rows)
      with that show ?thesis by simp
    next
      fix mp assume "rec \<in> set (msg_rows (set (col45 inp)) (build_tables (tags inp)) r mp)"
      then have "Instruction rec = MESSAGE" by (rule Instruction_msg_rows)
      with that show ?thesis by simp
    qed
    with scan(1) show ?thesis by blast
  next
    case (sweep st1 t)
    from sweep(4) have "Instruction rec = OTE" by (rule sweep_rows_member)
    with that show ?thesis by simp
  next
    case (unresolved st1 t)
    with that show ?thesis by (simp add: not_found_record_fields)
  qed
  have kinds: "Instruction rec \<in> {MOV, OTE, Not_Found, MESSAGE}"
    if "\<not> has_index_suffix (Col45 rec)"
  proof (rule ccontr)
    assume "Instruction rec \<notin> {MOV, OTE, Not_Found, MESSAGE}"
    then have "Instruction rec \<in> {COP, CPS, FFL}"
      by (cases "Instruction rec") simp_all
    then have "has_index_suffix (Col45 rec)" using br by simp
    with that show False by simp
  qed
  show ?thesis
  proof (intro conjI impI)
    assume "Instruction rec \<in> {COP, CPS, FFL}"
    then show "\<exists>base n. Col45 rec = tag_fmt base (int n)" using br by simp
  next
    assume "Instruction rec \<in> {COP, CPS, FFL}"
    then show "has_index_suffix (Col45 rec)" using br by simp
  next
    assume "Instruction rec = MESSAGE"
    then show "\<exists>base i. Col45 rec = tag_fmt base i \<and>
               (has_index_suffix (Col45 rec) \<or> i < 0 \<or> newline \<in> set base)"
      by (rule ms)
  next
    assume "\<not> has_index_suffix (Col45 rec)"
    then show "Instruction rec \<in> {MOV, OTE, Not_Found, MESSAGE}" by (rule kinds)
  next
    assume "Instruction rec = MOV"
    then show "\<exists>r \<in> set (rungs inp). \<exists>m \<in> set (mov_matches r). snd m = Col45 rec"
      by (rule mv)
  qed
qed

theorem expansion_destinations_bracketed_witness:
  "extract_mappings ex_cop =
     Inr [cop_row ''Y[0]'' ''Z[5]'', cop_row ''Y[1]'' ''Z[6]'', cop_row ''Y[2]'' ''Z[7]''] \<and>
   pattern_operands ex_cop \<and>
   Instruction (cop_row ''Y[1]'' ''Z[6]'') = COP \<and>
   has_index_suffix (Col45 (cop_row ''Y[1]'' ''Z[6]'')) \<and>
   extract_mappings ex_msg =
     Inr [not_found_row ''L'', msg_row ''L[5]'' ''R[2]'', mov_row ''T'' ''0'' ''A''] \<and>
   pattern_operands ex_msg \<and>
   \<not> has_index_suffix (Col45 (mov_row ''T'' ''0'' ''A'')) \<and>
   Instruction (mov_row ''T'' ''0'' ''A'') = MOV"
proof -
  have h: "extract_mappings ex_cop =
     Inr [cop_row ''Y[0]'' ''Z[5]'', cop_row ''Y[1]'' ''Z[6]'', cop_row ''Y[2]'' ''Z[7]'']"
    by code_simp
  have p: "pattern_operands ex_cop" by code_simp
  have m: "cop_row ''Y[1]'' ''Z[6]'' \<in>
     set [cop_row ''Y[0]'' ''Z[5]'', cop_row ''Y[1]'' ''Z[6]'', cop_row ''Y[2]'' ''Z[7]'']"
    by simp
  have i: "Instruction (cop_row ''Y[1]'' ''Z[6]'') \<in> {COP, CPS, FFL}"
    by (simp add: cop_row_def)
  have h': "extract_mappings ex_msg =
     Inr [not_found_row ''L'', msg_row ''L[5]'' ''R[2]'', mov_row ''T'' ''0'' ''A'']"
    by code_simp
  have p': "pattern_operands ex_msg" by code_simp
  have v: "mov_row ''T'' ''0'' ''A'' \<in>
     set [not_found_row ''L'', msg_row ''L[5]'' ''R[2]'', mov_row ''T'' ''0'' ''A'']"
    by simp
  have t: "\<not> has_index_suffix (Col45 (mov_row ''T'' ''0'' ''A''))" by code_simp
  from expansion_destinations_bracketed [OF h m p] i
  have "has_index_suffix (Col45 (cop_row ''Y[1]'' ''Z[6]''))" by blast
  moreover from expansion_destinations_bracketed [OF h' v p'] t
  have "Instruction (mov_row ''T'' ''0'' ''A'') \<in> {MOV, OTE, Not_Found, MESSAGE}" by blast
  ultimately show ?thesis
    using h p h' p' t by (simp add: cop_row_def mov_row_def)
qed

theorem unbracketed_message_destination_counterexample:
  "extract_mappings ex_neg = Inr [msg_row ''L[-1]'' ''R[-1]''] \<and>
   ''L[-1]'' \<in> set (col45 ex_neg) \<and>
   \<not> has_index_suffix ''L[-1]'' \<and>
   Instruction (msg_row ''L[-1]'' ''R[-1]'') = MESSAGE \<and>
   Col45 (msg_row ''L[-1]'' ''R[-1]'') = ''L[-1]''"
proof -
  have "extract_mappings ex_neg = Inr [msg_row ''L[-1]'' ''R[-1]'']" by code_simp
  moreover have "\<not> has_index_suffix ''L[-1]''" by code_simp
  ultimately show ?thesis by (simp add: ex_neg_def msg_row_def)
qed

section \<open>The natural order\<close>















end
